theory Spec2Isabelle
  imports Main "HOL-Library.Word"
begin

section \<open>Basic types\<close>

text \<open>
  Go's \<^verbatim>\<open>uint64\<close> (and \<^verbatim>\<open>primitives.Epoch\<close>, \<^verbatim>\<open>primitives.Slot\<close>, which are
  \<^verbatim>\<open>uint64\<close>) is a 64-bit word: \<open>+\<close>, \<open>-\<close> and \<open>*\<close> wrap around, \<open>\<le>\<close> and \<open><\<close> are
  unsigned. A \<^verbatim>\<open>[32]byte\<close> array and a \<^verbatim>\<open>[]byte\<close> slice are byte lists.
\<close>

type_synonym u64 = "64 word"
type_synonym epoch = "64 word"
type_synonym slot = "64 word"
type_synonym byte = "8 word"
type_synonym root = "byte list"

text \<open>
  Errors are values. \<^verbatim>\<open>errors.Wrap(err, msg)\<close> only adds a message to \<^verbatim>\<open>err\<close>; the
  model keeps the wrapped cause. \<open>External\<close> is an error produced by a collaborator
  outside the package (the block database, the state transition, the balances
  provider), \<open>ContextCanceled\<close> is \<^verbatim>\<open>ctx.Err()\<close>, and \<open>NilPointerDereference\<close> is the
  run-time panic of Go on a nil receiver.
\<close>

datatype error =
    ErrNilNode
  | errInvalidUnrealizedJustifiedEpoch
  | errInvalidUnrealizedFinalizedEpoch
  | errWSBlockNotFound
  | errWSBlockNotFoundInEpoch
  | ContextCanceled
  | External nat
  | NilPointerDereference

text \<open>
  \<^verbatim>\<open>ethpb.Checkpoint\<close> and \<^verbatim>\<open>forkchoicetypes.Checkpoint\<close>: an epoch and a root. The
  first holds the root as a slice, the second as a \<^verbatim>\<open>[32]byte\<close>; the conversion is
  \<^verbatim>\<open>bytesutil.ToBytes32\<close>.
\<close>

record Checkpoint =
  Epoch :: epoch
  Root :: "byte list"

text \<open>
  The fields of \<^verbatim>\<open>params.BeaconConfig()\<close> that the code reads. Their values depend on
  the network configuration, so they are parameters.
\<close>

record BeaconConfig =
  ZeroHash :: root
  SlotsPerEpoch :: slot
  ProposerScoreBoost :: u64

text \<open>
  Helpers of the packages \<^verbatim>\<open>time/slots\<close> and \<^verbatim>\<open>encoding/bytesutil\<close>, taken as
  parameters: \<^verbatim>\<open>slots.EpochStart\<close>, \<^verbatim>\<open>slots.ToEpoch\<close>, \<^verbatim>\<open>slots.SinceEpochStarts\<close>,
  \<^verbatim>\<open>bytesutil.ToBytes32\<close>, and \<^verbatim>\<open>slots.CurrentSlot\<close>, which reads the wall clock: the
  field gives its answer at the time of the call.
\<close>

record helpers =
  EpochStart :: "epoch \<Rightarrow> error + slot"
  ToEpoch :: "slot \<Rightarrow> epoch"
  SinceEpochStarts :: "slot \<Rightarrow> slot"
  CurrentSlot :: "u64 \<Rightarrow> slot"
  ToBytes32 :: "byte list \<Rightarrow> root"

section \<open>The fork-choice node\<close>

text \<open>
  Nodes live in memory: a \<^verbatim>\<open>*Node\<close> is an address or nil (\<open>None\<close>), and the memory
  gives the node at every address (a Go pointer that is not nil always points to a
  node). Two pointers are the same node exactly when the addresses are equal.
\<close>

type_synonym addr = nat

record Node =
  slot :: slot
  root :: root
  parent :: "addr option"
  children :: "addr option list"
  justifiedEpoch :: epoch
  unrealizedJustifiedEpoch :: epoch
  finalizedEpoch :: epoch
  unrealizedFinalizedEpoch :: epoch
  balance :: u64
  weight :: u64
  bestDescendant :: "addr option"
  optimistic :: bool
  payloadHash :: root
  timestamp :: u64

type_synonym heap = "addr \<Rightarrow> Node"

subsection \<open>viableForHead\<close>

definition viableForHead :: "Node \<Rightarrow> epoch \<Rightarrow> epoch \<Rightarrow> bool" where
  "viableForHead n justifiedEpoch' currentEpoch =
     (if justifiedEpoch' = 0 then True
      else justifiedEpoch n = justifiedEpoch' \<or> justifiedEpoch n + 2 \<ge> currentEpoch)"

subsection \<open>leadsToViableHead\<close>

definition leadsToViableHead :: "heap \<Rightarrow> addr \<Rightarrow> epoch \<Rightarrow> epoch \<Rightarrow> bool" where
  "leadsToViableHead h n justifiedEpoch' currentEpoch =
     (case bestDescendant (h n) of
        None \<Rightarrow> viableForHead (h n) justifiedEpoch' currentEpoch
      | Some d \<Rightarrow> viableForHead (h d) justifiedEpoch' currentEpoch)"

subsection \<open>The context\<close>

text \<open>
  A \<^verbatim>\<open>context.Context\<close> may be cancelled at any moment and stays cancelled. The model
  counts the calls of \<^verbatim>\<open>ctx.Err()\<close>: \<open>None\<close> is a context that is never cancelled,
  \<open>Some k\<close> one that answers nil to the next \<open>k\<close> calls and the error from then on.
\<close>

type_synonym ctx = "nat option"

definition ctxErr :: "ctx \<Rightarrow> error option \<times> ctx" where
  "ctxErr c =
     (case c of
        None \<Rightarrow> (None, None)
      | Some k \<Rightarrow> if k = 0 then (Some ContextCanceled, Some 0) else (None, Some (k - 1)))"

subsection \<open>applyWeightChanges\<close>

text \<open>
  The method calls itself on every child, and the children are read from memory, so
  the recursion is bounded by a fuel argument: \<open>None\<close> is a walk that did not finish
  within the fuel (on a cyclic structure no fuel is enough). Otherwise the result is
  the returned error, the memory and the context. The second function is the
  \<^verbatim>\<open>for\<close> loop over \<^verbatim>\<open>n.children\<close>, with the running sum \<^verbatim>\<open>childrenWeight\<close>; a call on
  a nil child panics when it reads \<^verbatim>\<open>n.children\<close>.
\<close>

fun applyWeightChanges ::
  "nat \<Rightarrow> BeaconConfig \<Rightarrow> addr \<Rightarrow> heap \<times> ctx \<Rightarrow> (error option \<times> heap \<times> ctx) option"
and applyWeightChangesLoop ::
  "nat \<Rightarrow> BeaconConfig \<Rightarrow> addr option list \<Rightarrow> u64 \<Rightarrow> heap \<times> ctx
     \<Rightarrow> ((error + u64) \<times> heap \<times> ctx) option"
where
  "applyWeightChanges 0 cfg n hc = None"
| "applyWeightChanges (Suc fuel) cfg n (h, c) =
     (case applyWeightChangesLoop fuel cfg (children (h n)) 0 (h, c) of
        None \<Rightarrow> None
      | Some (Inl err, h', c') \<Rightarrow> Some (Some err, h', c')
      | Some (Inr childrenWeight, h', c') \<Rightarrow>
          if root (h' n) = ZeroHash cfg then Some (None, h', c')
          else Some (None, h'(n := (h' n)\<lparr>weight := balance (h' n) + childrenWeight\<rparr>), c'))"
| "applyWeightChangesLoop fuel cfg [] childrenWeight (h, c) = Some (Inr childrenWeight, h, c)"
| "applyWeightChangesLoop fuel cfg (child # rest) childrenWeight (h, c) =
     (case ctxErr c of
        (Some err, c') \<Rightarrow> Some (Inl err, h, c')
      | (None, c') \<Rightarrow>
          (case child of
             None \<Rightarrow> Some (Inl NilPointerDereference, h, c')
           | Some a \<Rightarrow>
               (case applyWeightChanges fuel cfg a (h, c') of
                  None \<Rightarrow> None
                | Some (Some err, h', c'') \<Rightarrow> Some (Inl err, h', c'')
                | Some (None, h', c'') \<Rightarrow>
                    applyWeightChangesLoop fuel cfg rest (childrenWeight + weight (h' a)) (h', c''))))"

subsection \<open>updateBestDescendant\<close>

text \<open>
  \<^verbatim>\<open>bytes.Compare\<close> of the standard library: the lexicographic comparison of two byte
  strings, with result \<open>-1\<close>, \<open>0\<close> or \<open>1\<close>.
\<close>

fun bytes_Compare :: "byte list \<Rightarrow> byte list \<Rightarrow> int" where
  "bytes_Compare [] [] = 0"
| "bytes_Compare [] (y # ys) = - 1"
| "bytes_Compare (x # xs) [] = 1"
| "bytes_Compare (x # xs) (y # ys) =
     (if x < y then - 1 else if y < x then 1 else bytes_Compare xs ys)"

text \<open>
  The variables \<^verbatim>\<open>bestChild\<close>, \<^verbatim>\<open>bestWeight\<close> and \<^verbatim>\<open>hasViableDescendant\<close> of the loop,
  and the body of the loop after the recursive call on the child.
\<close>

type_synonym best = "addr option \<times> u64 \<times> bool"

definition compareChild :: "heap \<Rightarrow> addr \<Rightarrow> epoch \<Rightarrow> epoch \<Rightarrow> best \<Rightarrow> error + best" where
  "compareChild h child justifiedEpoch' currentEpoch st =
     (case st of (bestChild, bestWeight, hasViableDescendant) \<Rightarrow>
        let childLeadsToViableHead = leadsToViableHead h child justifiedEpoch' currentEpoch in
        if childLeadsToViableHead \<and> \<not> hasViableDescendant
        then Inr (Some child, weight (h child), True)
        else if childLeadsToViableHead
        then (if weight (h child) = bestWeight
              then (case bestChild of
                      None \<Rightarrow> Inl NilPointerDereference
                    | Some b \<Rightarrow>
                        if bytes_Compare (root (h child)) (root (h b)) > 0
                        then Inr (Some child, bestWeight, hasViableDescendant)
                        else Inr st)
              else if weight (h child) > bestWeight
              then Inr (Some child, weight (h child), hasViableDescendant)
              else Inr st)
        else Inr st)"

text \<open>
  The walk, bounded by fuel like \<open>applyWeightChanges\<close>, and its loop over the children.
  The arguments \<open>je\<close>, \<open>fe\<close> and \<open>ce\<close> are \<^verbatim>\<open>justifiedEpoch\<close>, \<^verbatim>\<open>finalizedEpoch\<close> and
  \<^verbatim>\<open>currentEpoch\<close>.
\<close>

fun updateBestDescendant ::
  "nat \<Rightarrow> addr \<Rightarrow> epoch \<Rightarrow> epoch \<Rightarrow> epoch \<Rightarrow> heap \<times> ctx
     \<Rightarrow> (error option \<times> heap \<times> ctx) option"
and updateBestDescendantLoop ::
  "nat \<Rightarrow> addr option list \<Rightarrow> epoch \<Rightarrow> epoch \<Rightarrow> epoch \<Rightarrow> best \<Rightarrow> heap \<times> ctx
     \<Rightarrow> ((error + best) \<times> heap \<times> ctx) option"
where
  "updateBestDescendant 0 n je fe ce hc = None"
| "updateBestDescendant (Suc fuel) n je fe ce (h, c) =
     (case ctxErr c of
        (Some err, c') \<Rightarrow> Some (Some err, h, c')
      | (None, c') \<Rightarrow>
          if length (children (h n)) = 0
          then Some (None, h(n := (h n)\<lparr>bestDescendant := None\<rparr>), c')
          else
            (case updateBestDescendantLoop fuel (children (h n)) je fe ce (None, 0, False) (h, c') of
               None \<Rightarrow> None
             | Some (Inl err, h', c'') \<Rightarrow> Some (Some err, h', c'')
             | Some (Inr (bestChild, bestWeight, hasViableDescendant), h', c'') \<Rightarrow>
                 if hasViableDescendant
                 then (case bestChild of
                         None \<Rightarrow> Some (Some NilPointerDereference, h', c'')
                       | Some b \<Rightarrow>
                           (case bestDescendant (h' b) of
                              None \<Rightarrow> Some (None, h'(n := (h' n)\<lparr>bestDescendant := Some b\<rparr>), c'')
                            | Some d \<Rightarrow> Some (None, h'(n := (h' n)\<lparr>bestDescendant := Some d\<rparr>), c'')))
                 else Some (None, h'(n := (h' n)\<lparr>bestDescendant := None\<rparr>), c'')))"
| "updateBestDescendantLoop fuel [] je fe ce st (h, c) = Some (Inr st, h, c)"
| "updateBestDescendantLoop fuel (child # rest) je fe ce st (h, c) =
     (case child of
        None \<Rightarrow> Some (Inl ErrNilNode, h, c)
      | Some a \<Rightarrow>
          (case updateBestDescendant fuel a je fe ce (h, c) of
             None \<Rightarrow> None
           | Some (Some err, h', c') \<Rightarrow> Some (Inl err, h', c')
           | Some (None, h', c') \<Rightarrow>
               (case compareChild h' a je ce st of
                  Inl err \<Rightarrow> Some (Inl err, h', c')
                | Inr st' \<Rightarrow> updateBestDescendantLoop fuel rest je fe ce st' (h', c'))))"

section \<open>The store\<close>

text \<open>
  A method is modelled for a receiver that is not nil, given by its address. The
  fields of \<^verbatim>\<open>Store\<close> are those that the code reads or writes. \<open>nodeByRoot\<close> maps a root
  to a pointer, which may be nil. The checkpoints of the store and the checkpoint
  arguments are pointers that the constructor and the callers always allocate; they
  are held by value. The calls \<^verbatim>\<open>assert.Always\<close>, \<^verbatim>\<open>assert.Unreachable\<close> and the like
  report to the test platform and return; they change neither the state nor the
  control flow. Their reports are recorded for \<^verbatim>\<open>updateUnrealizedCheckpoints\<close>, where
  an assertion reads a field of the store that nothing else reads; elsewhere they
  have no counterpart.
\<close>

record Store =
  justifiedCheckpoint :: Checkpoint
  prevJustifiedCheckpoint :: Checkpoint
  finalizedCheckpoint :: Checkpoint
  prevFinalizedCheckpoint :: Checkpoint
  unrealizedJustifiedCheckpoint :: Checkpoint
  unrealizedFinalizedCheckpoint :: Checkpoint
  proposerBoostRoot :: root
  previousProposerBoostRoot :: root
  previousProposerBoostScore :: u64
  committeeWeight :: u64
  genesisTime :: u64
  nodeByRoot :: "root \<rightharpoonup> addr option"

record ForkChoice =
  store :: Store
  justifiedBalances :: "u64 list"

subsection \<open>applyProposerBoostScore\<close>

definition applyProposerBoostScore ::
  "BeaconConfig \<Rightarrow> Store \<times> heap \<Rightarrow> error option \<times> Store \<times> heap"
where
  "applyProposerBoostScore cfg sh =
     (case sh of (s, h) \<Rightarrow>
        let h1 =
              (if previousProposerBoostRoot s \<noteq> ZeroHash cfg
               then (case nodeByRoot s (previousProposerBoostRoot s) of
                       None \<Rightarrow> h
                     | Some None \<Rightarrow> h
                     | Some (Some previousNode) \<Rightarrow>
                         h(previousNode := (h previousNode)
                             \<lparr>balance := balance (h previousNode) - previousProposerBoostScore s\<rparr>))
               else h);
            (h2, proposerScore) =
              (if proposerBoostRoot s \<noteq> ZeroHash cfg
               then (case nodeByRoot s (proposerBoostRoot s) of
                       None \<Rightarrow> (h1, 0)
                     | Some None \<Rightarrow> (h1, 0)
                     | Some (Some currentNode) \<Rightarrow>
                         let proposerScore = (committeeWeight s * ProposerScoreBoost cfg) div 100
                         in (h1(currentNode := (h1 currentNode)
                                  \<lparr>balance := balance (h1 currentNode) + proposerScore\<rparr>),
                             proposerScore))
               else (h1, 0))
        in (None,
            s\<lparr>previousProposerBoostRoot := proposerBoostRoot s,
              previousProposerBoostScore := proposerScore\<rparr>,
            h2))"

subsection \<open>Unrealized justification\<close>

definition setUnrealizedJustifiedEpoch ::
  "root \<Rightarrow> epoch \<Rightarrow> Store \<times> heap \<Rightarrow> error option \<times> heap"
where
  "setUnrealizedJustifiedEpoch r e sh =
     (case sh of (s, h) \<Rightarrow>
        (case nodeByRoot s r of
           None \<Rightarrow> (Some ErrNilNode, h)
         | Some None \<Rightarrow> (Some ErrNilNode, h)
         | Some (Some node) \<Rightarrow>
             if e < unrealizedJustifiedEpoch (h node)
             then (Some errInvalidUnrealizedJustifiedEpoch, h)
             else (None, h(node := (h node)\<lparr>unrealizedJustifiedEpoch := e\<rparr>))))"

definition setUnrealizedFinalizedEpoch ::
  "root \<Rightarrow> epoch \<Rightarrow> Store \<times> heap \<Rightarrow> error option \<times> heap"
where
  "setUnrealizedFinalizedEpoch r e sh =
     (case sh of (s, h) \<Rightarrow>
        (case nodeByRoot s r of
           None \<Rightarrow> (Some ErrNilNode, h)
         | Some None \<Rightarrow> (Some ErrNilNode, h)
         | Some (Some node) \<Rightarrow>
             if e < unrealizedFinalizedEpoch (h node)
             then (Some errInvalidUnrealizedFinalizedEpoch, h)
             else (None, h(node := (h node)\<lparr>unrealizedFinalizedEpoch := e\<rparr>))))"

text \<open>
  Modelled from the spec: \<^verbatim>\<open>updateJustifiedBalances\<close> is a method of \<^verbatim>\<open>ForkChoice\<close>
  that is not among the sources. The spec says that it refreshes the justified
  balances, the snapshot of validator balances that
  \<^verbatim>\<open>BalancesProvider.JustifiedBalances(root)\<close> gives; the provider is a parameter and
  may fail.
\<close>

definition updateJustifiedBalances ::
  "(root \<Rightarrow> error + u64 list) \<Rightarrow> root \<Rightarrow> ForkChoice \<Rightarrow> error + ForkChoice"
where
  "updateJustifiedBalances provider r f =
     (case provider r of
        Inl err \<Rightarrow> Inl err
      | Inr balances \<Rightarrow> Inr (f\<lparr>justifiedBalances := balances\<rparr>))"

text \<open>
  The assertions of \<^verbatim>\<open>updateUnrealizedCheckpoints\<close> read the node and the store, one of
  them the field \<open>prevFinalizedCheckpoint\<close> that nothing else reads. A report is an
  assertion that was evaluated and found violated (for \<^verbatim>\<open>assert.Unreachable\<close>: that was
  reached); the reports are collected in the order in which the code makes them.
\<close>

datatype report =
    NodeJustifiedBelowFinalized
  | JustifiedEpochDidNotIncrease
  | UpdateJustifiedBalancesFailed
  | FinalizedEpochDidNotIncrease
  | StoreJustifiedBelowFinalized

definition assertAlways :: "bool \<Rightarrow> report \<Rightarrow> report list \<Rightarrow> report list" where
  "assertAlways holds r reports = (if holds then reports else reports @ [r])"

text \<open>
  The body of the loop of \<^verbatim>\<open>updateUnrealizedCheckpoints\<close> for one value of the map,
  and the loop over the values in the order in which the map yields them. The result
  is the returned error, the fork choice, the memory and the reports; when
  \<^verbatim>\<open>updateJustifiedBalances\<close> fails the function returns with the writes made so far.
\<close>

definition realizeNode ::
  "(root \<Rightarrow> error + u64 list) \<Rightarrow> addr \<Rightarrow> ForkChoice \<times> heap \<times> report list
     \<Rightarrow> error option \<times> ForkChoice \<times> heap \<times> report list"
where
  "realizeNode provider node fhr =
     (case fhr of (f, h, reports) \<Rightarrow>
        let h' = h(node := (h node)
                     \<lparr>justifiedEpoch := unrealizedJustifiedEpoch (h node),
                      finalizedEpoch := unrealizedFinalizedEpoch (h node)\<rparr>);
            reports1 = assertAlways (justifiedEpoch (h' node) \<ge> finalizedEpoch (h' node))
                         NodeJustifiedBelowFinalized reports;
            (err, f2, reports2) =
              (if justifiedEpoch (h' node) > Epoch (justifiedCheckpoint (store f))
               then
                 let f1 = f\<lparr>store := (store f)
                             \<lparr>prevJustifiedCheckpoint := justifiedCheckpoint (store f),
                              justifiedCheckpoint := unrealizedJustifiedCheckpoint (store f)\<rparr>\<rparr>;
                     reportsJ = assertAlways
                         (Epoch (justifiedCheckpoint (store f1))
                            > Epoch (prevJustifiedCheckpoint (store f1)))
                         JustifiedEpochDidNotIncrease reports1
                 in (case updateJustifiedBalances provider (Root (justifiedCheckpoint (store f1))) f1 of
                       Inl e \<Rightarrow> (Some e, f1, reportsJ @ [UpdateJustifiedBalancesFailed])
                     | Inr fb \<Rightarrow> (None, fb, reportsJ))
               else (None, f, reports1))
        in (case err of
              Some e \<Rightarrow> (Some e, f2, h', reports2)
            | None \<Rightarrow>
                if finalizedEpoch (h' node) > Epoch (finalizedCheckpoint (store f2))
                then
                  let f3 = f2\<lparr>store := (store f2)
                              \<lparr>finalizedCheckpoint := unrealizedFinalizedCheckpoint (store f2)\<rparr>\<rparr>
                  in (None, f3, h',
                      assertAlways
                        (Epoch (finalizedCheckpoint (store f3))
                           > Epoch (prevFinalizedCheckpoint (store f3)))
                        FinalizedEpochDidNotIncrease reports2)
                else (None, f2, h', reports2)))"

fun realizeNodes ::
  "(root \<Rightarrow> error + u64 list) \<Rightarrow> addr option list \<Rightarrow> ForkChoice \<times> heap \<times> report list
     \<Rightarrow> error option \<times> ForkChoice \<times> heap \<times> report list"
where
  "realizeNodes provider [] fhr = (None, fhr)"
| "realizeNodes provider (None # ps) fhr = (Some NilPointerDereference, fhr)"
| "realizeNodes provider (Some node # ps) fhr =
     (case realizeNode provider node fhr of
        (Some e, fhr') \<Rightarrow> (Some e, fhr')
      | (None, fhr') \<Rightarrow> realizeNodes provider ps fhr')"

text \<open>
  Go does not fix the order in which \<^verbatim>\<open>range\<close> visits a map. The order is a
  parameter: a list of the keys of \<open>nodeByRoot\<close>. After the loop comes the assertion
  on the store.
\<close>

definition updateUnrealizedCheckpoints ::
  "(root \<Rightarrow> error + u64 list) \<Rightarrow> root list \<Rightarrow> ForkChoice \<times> heap
     \<Rightarrow> error option \<times> ForkChoice \<times> heap \<times> report list"
where
  "updateUnrealizedCheckpoints provider order fh =
     (case realizeNodes provider (List.map_filter (nodeByRoot (store (fst fh))) order)
             (fst fh, snd fh, []) of
        (Some e, fhr) \<Rightarrow> (Some e, fhr)
      | (None, f, h, reports) \<Rightarrow>
          (None, f, h,
           assertAlways (Epoch (justifiedCheckpoint (store f)) \<ge> Epoch (finalizedCheckpoint (store f)))
             StoreJustifiedBelowFinalized reports))"

text \<open>
  What \<^verbatim>\<open>pullTips\<close> reads of the beacon state: its slot, and what
  \<^verbatim>\<open>precompute.UnrealizedCheckpoints\<close> returns on it.
\<close>

record BeaconState =
  Slot :: slot
  UnrealizedCheckpoints :: "error + Checkpoint \<times> Checkpoint"

definition toForkchoiceCheckpoint :: "helpers \<Rightarrow> Checkpoint \<Rightarrow> Checkpoint" where
  "toForkchoiceCheckpoint hp c = \<lparr>Epoch = Epoch c, Root = ToBytes32 hp (Root c)\<rparr>"

definition pullTips ::
  "BeaconConfig \<Rightarrow> helpers \<Rightarrow> BeaconState \<Rightarrow> addr \<Rightarrow> Checkpoint \<Rightarrow> Checkpoint
     \<Rightarrow> Store \<times> heap \<Rightarrow> (Checkpoint \<times> Checkpoint) \<times> Store \<times> heap"
where
  "pullTips cfg hp state node jc fc sh =
     (case sh of (s, h) \<Rightarrow>
        (case parent (h node) of
           None \<Rightarrow> ((jc, fc), s, h)
         | Some p \<Rightarrow>
             let currentEpoch = ToEpoch hp (CurrentSlot hp (genesisTime s));
                 stateSlot = Slot state;
                 stateEpoch = ToEpoch hp stateSlot;
                 currJustified = (unrealizedJustifiedEpoch (h p) = currentEpoch);
                 prevJustified = (unrealizedJustifiedEpoch (h p) + 1 = currentEpoch);
                 tooEarlyForCurr = (SinceEpochStarts hp stateSlot * 3 < SlotsPerEpoch cfg * 2)
             in if currJustified \<or> (stateEpoch = currentEpoch \<and> prevJustified \<and> tooEarlyForCurr)
                then ((jc, fc), s,
                      h(node := (h node)
                          \<lparr>unrealizedJustifiedEpoch := unrealizedJustifiedEpoch (h p),
                           unrealizedFinalizedEpoch := unrealizedFinalizedEpoch (h p)\<rparr>))
                else
                  let (uj, uf) = (case UnrealizedCheckpoints state of
                                    Inl err \<Rightarrow> (jc, fc)
                                  | Inr r \<Rightarrow> r);
                      s1 = (if Epoch uj > Epoch (unrealizedJustifiedCheckpoint s)
                            then s\<lparr>unrealizedJustifiedCheckpoint := toForkchoiceCheckpoint hp uj\<rparr>
                            else s);
                      s2 = (if Epoch uf > Epoch (unrealizedFinalizedCheckpoint s1)
                            then s1\<lparr>unrealizedJustifiedCheckpoint := toForkchoiceCheckpoint hp uj,
                                    unrealizedFinalizedCheckpoint := toForkchoiceCheckpoint hp uf\<rparr>
                            else s1);
                      h1 = h(node := (h node)
                               \<lparr>unrealizedJustifiedEpoch := Epoch uj,
                                unrealizedFinalizedEpoch := Epoch uf\<rparr>)
                  in if stateEpoch < currentEpoch
                     then ((uj, uf), s2,
                           h1(node := (h1 node)
                                \<lparr>justifiedEpoch := Epoch uj, finalizedEpoch := Epoch uf\<rparr>))
                     else ((jc, fc), s2, h1)))"

text \<open>
  A sequence of calls of \<^verbatim>\<open>pullTips\<close>, each with its own clock, state, node and
  checkpoints; the returned checkpoints are dropped.
\<close>

fun pullTipsSeq ::
  "BeaconConfig \<Rightarrow> (helpers \<times> BeaconState \<times> addr \<times> Checkpoint \<times> Checkpoint) list
     \<Rightarrow> Store \<times> heap \<Rightarrow> Store \<times> heap"
where
  "pullTipsSeq cfg [] sh = sh"
| "pullTipsSeq cfg ((hp, state, node, jc, fc) # calls) sh =
     pullTipsSeq cfg calls (snd (pullTips cfg hp state node jc fc sh))"

section \<open>The weak-subjectivity verifier\<close>

text \<open>
  The interface \<^verbatim>\<open>weakSubjectivityDB\<close>: what the two methods answer at the time of the
  call. \<open>BlockRoots\<close> takes the start and end slot that the code puts into the query
  filter.
\<close>

record weakSubjectivityDB =
  HasBlock :: "root \<Rightarrow> bool"
  BlockRoots :: "slot \<Rightarrow> slot \<Rightarrow> error + root list"

datatype dbcall = HasBlockCall root | BlockRootsCall slot slot

record WeakSubjectivityVerifier =
  enabled :: bool
  verified :: bool
  wsroot :: root
  wsepoch :: epoch
  wsslot :: slot
  db :: "weakSubjectivityDB option"


definition disabledVerifier :: WeakSubjectivityVerifier where
  "disabledVerifier =
     \<lparr>enabled = False, verified = False, wsroot = replicate 32 0, wsepoch = 0,
      wsslot = 0, db = None\<rparr>"

definition NewWeakSubjectivityVerifier ::
  "helpers \<Rightarrow> Checkpoint option \<Rightarrow> weakSubjectivityDB option \<Rightarrow> error + WeakSubjectivityVerifier"
where
  "NewWeakSubjectivityVerifier env wsc d =
     (case wsc of
        None \<Rightarrow> Inr disabledVerifier
      | Some c \<Rightarrow>
          if length (Root c) = 0 \<or> Epoch c = 0 then Inr disabledVerifier
          else (case EpochStart env (Epoch c) of
                  Inl err \<Rightarrow> Inl err
                | Inr startSlot \<Rightarrow>
                    Inr \<lparr>enabled = True, verified = False, wsroot = ToBytes32 env (Root c),
                         wsepoch = Epoch c, wsslot = startSlot, db = d\<rparr>))"

text \<open>The final loop over the roots that the database returned.\<close>

fun rootsContain :: "root \<Rightarrow> root list \<Rightarrow> bool" where
  "rootsContain r [] = False"
| "rootsContain r (x # xs) = (if r = x then True else rootsContain r xs)"

text \<open>
  The result is the returned error (\<open>None\<close> is nil), the verifier after the call and
  the calls made to the database, in order.
\<close>

definition VerifyWeakSubjectivity ::
  "BeaconConfig \<Rightarrow> WeakSubjectivityVerifier \<Rightarrow> epoch
     \<Rightarrow> error option \<times> WeakSubjectivityVerifier \<times> dbcall list"
where
  "VerifyWeakSubjectivity cfg v finalizedEpoch' =
     (if verified v \<or> \<not> enabled v then (None, v, [])
      else if wsepoch v > finalizedEpoch' then (None, v, [])
      else (case db v of
              None \<Rightarrow> (Some NilPointerDereference, v, [])
            | Some d \<Rightarrow>
                let hasBlock = HasBlock d (wsroot v) in
                if \<not> hasBlock then (Some errWSBlockNotFound, v, [HasBlockCall (wsroot v)])
                else
                  let endSlot = wsslot v + SlotsPerEpoch cfg;
                      calls = [HasBlockCall (wsroot v), BlockRootsCall (wsslot v) endSlot]
                  in (case BlockRoots d (wsslot v) endSlot of
                        Inl err \<Rightarrow> (Some err, v, calls)
                      | Inr roots \<Rightarrow>
                          if rootsContain (wsroot v) roots
                          then (None, v\<lparr>verified := True\<rparr>, calls)
                          else (Some errWSBlockNotFoundInEpoch, v, calls))))"

section \<open>Trees in memory\<close>

text \<open>
  The shape of a tree of nodes: the address of a node and the shapes of its children,
  in the order of \<^verbatim>\<open>children\<close>. The memory \<open>h\<close> holds a tree of shape \<open>t\<close> when the
  \<^verbatim>\<open>children\<close> of every node of \<open>t\<close> are the nodes that the shape gives; the nodes of a
  tree are distinct, \<open>distinct (addrs t)\<close>.
\<close>

datatype shape = Shape addr "shape list"

fun top :: "shape \<Rightarrow> addr" where
  "top (Shape a ts) = a"

fun addrs :: "shape \<Rightarrow> addr list" where
  "addrs (Shape a ts) = a # concat (map addrs ts)"

fun depth :: "shape \<Rightarrow> nat" where
  "depth (Shape a ts) = Suc (Max (insert 0 (depth ` set ts)))"

fun isTree :: "heap \<Rightarrow> shape \<Rightarrow> bool" where
  "isTree h (Shape a ts) \<longleftrightarrow>
     children (h a) = map (\<lambda>t. Some (top t)) ts \<and> (\<forall>t \<in> set ts. isTree h t)"

text \<open>The children of a node that are not nil.\<close>

definition childNodes :: "Node \<Rightarrow> addr list" where
  "childNodes n = List.map_filter id (children n)"

text \<open>
  On every node of the shape the weight is the balance plus the weights of the
  children, or, on a node with the zero root, the weight that it had in \<open>h\<close>.
\<close>

fun weightsOK :: "BeaconConfig \<Rightarrow> heap \<Rightarrow> heap \<Rightarrow> shape \<Rightarrow> bool" where
  "weightsOK cfg h h' (Shape a ts) \<longleftrightarrow>
     (if root (h' a) = ZeroHash cfg then weight (h' a) = weight (h a)
      else weight (h' a) = balance (h' a) + sum_list (map (\<lambda>t. weight (h' (top t))) ts))
     \<and> (\<forall>t \<in> set ts. weightsOK cfg h h' t)"

text \<open>The choice among children with the memory fixed: the loop without the recursive calls.\<close>

fun selectBest :: "heap \<Rightarrow> epoch \<Rightarrow> epoch \<Rightarrow> addr list \<Rightarrow> best \<Rightarrow> error + best" where
  "selectBest h je ce [] st = Inr st"
| "selectBest h je ce (a # as) st =
     (case compareChild h a je ce st of
        Inl err \<Rightarrow> Inl err
      | Inr st' \<Rightarrow> selectBest h je ce as st')"

text \<open>
  What the two walks leave unchanged (every field but \<open>weight\<close>, and every field but
  \<open>bestDescendant\<close>), and their effect in terms of the shape.
\<close>

definition keepsFields :: "heap \<Rightarrow> heap \<Rightarrow> bool" where
  "keepsFields h h' \<longleftrightarrow>
     (\<forall>a. slot (h' a) = slot (h a) \<and> root (h' a) = root (h a)
          \<and> parent (h' a) = parent (h a) \<and> children (h' a) = children (h a)
          \<and> justifiedEpoch (h' a) = justifiedEpoch (h a)
          \<and> unrealizedJustifiedEpoch (h' a) = unrealizedJustifiedEpoch (h a)
          \<and> finalizedEpoch (h' a) = finalizedEpoch (h a)
          \<and> unrealizedFinalizedEpoch (h' a) = unrealizedFinalizedEpoch (h a)
          \<and> balance (h' a) = balance (h a)
          \<and> bestDescendant (h' a) = bestDescendant (h a)
          \<and> optimistic (h' a) = optimistic (h a)
          \<and> payloadHash (h' a) = payloadHash (h a)
          \<and> timestamp (h' a) = timestamp (h a))"

definition awcPost :: "BeaconConfig \<Rightarrow> shape \<Rightarrow> heap \<Rightarrow> error option \<Rightarrow> heap \<Rightarrow> bool" where
  "awcPost cfg t h e h' \<longleftrightarrow>
     (\<forall>a. a \<notin> set (addrs t) \<longrightarrow> h' a = h a) \<and> keepsFields h h'
     \<and> (e = None \<longrightarrow> weightsOK cfg h h' t)"

definition awcLoopPost ::
  "BeaconConfig \<Rightarrow> shape list \<Rightarrow> u64 \<Rightarrow> heap \<Rightarrow> error + u64 \<Rightarrow> heap \<Rightarrow> bool" where
  "awcLoopPost cfg ts w h r h' \<longleftrightarrow>
     (\<forall>a. a \<notin> set (concat (map addrs ts)) \<longrightarrow> h' a = h a) \<and> keepsFields h h'
     \<and> (\<forall>w'. r = Inr w' \<longrightarrow>
           w' = w + sum_list (map (\<lambda>t. weight (h' (top t))) ts)
           \<and> (\<forall>t \<in> set ts. weightsOK cfg h h' t))"

definition keepsView :: "heap \<Rightarrow> heap \<Rightarrow> bool" where
  "keepsView h h' \<longleftrightarrow>
     (\<forall>a. slot (h' a) = slot (h a) \<and> root (h' a) = root (h a)
          \<and> parent (h' a) = parent (h a) \<and> children (h' a) = children (h a)
          \<and> justifiedEpoch (h' a) = justifiedEpoch (h a)
          \<and> unrealizedJustifiedEpoch (h' a) = unrealizedJustifiedEpoch (h a)
          \<and> finalizedEpoch (h' a) = finalizedEpoch (h a)
          \<and> unrealizedFinalizedEpoch (h' a) = unrealizedFinalizedEpoch (h a)
          \<and> balance (h' a) = balance (h a)
          \<and> weight (h' a) = weight (h a)
          \<and> optimistic (h' a) = optimistic (h a)
          \<and> payloadHash (h' a) = payloadHash (h a)
          \<and> timestamp (h' a) = timestamp (h a))"

definition ubdPost :: "shape \<Rightarrow> heap \<Rightarrow> heap \<Rightarrow> bool" where
  "ubdPost t h h' \<longleftrightarrow> (\<forall>a. a \<notin> set (addrs t) \<longrightarrow> h' a = h a) \<and> keepsView h h'"

definition ubdLoopPost ::
  "epoch \<Rightarrow> epoch \<Rightarrow> shape list \<Rightarrow> best \<Rightarrow> heap \<Rightarrow> error + best \<Rightarrow> heap \<Rightarrow> bool" where
  "ubdLoopPost je ce ts st h r h' \<longleftrightarrow>
     (\<forall>a. a \<notin> set (concat (map addrs ts)) \<longrightarrow> h' a = h a) \<and> keepsView h h'
     \<and> (\<forall>st'. r = Inr st' \<longrightarrow> selectBest h' je ce (map top ts) st = Inr st')"

text \<open>
  The order in which a child loses against another (less weight, or equal weight and a
  root that is not greater), and the invariant of the choice: the best child so far is
  a viable child that no viable child seen so far beats.
\<close>

definition dominated :: "heap \<Rightarrow> addr \<Rightarrow> addr \<Rightarrow> bool" where
  "dominated h a b \<longleftrightarrow>
     weight (h a) < weight (h b)
     \<or> (weight (h a) = weight (h b) \<and> bytes_Compare (root (h a)) (root (h b)) \<le> 0)"

definition bestInv :: "heap \<Rightarrow> epoch \<Rightarrow> epoch \<Rightarrow> addr list \<Rightarrow> best \<Rightarrow> bool" where
  "bestInv h je ce seen st \<longleftrightarrow>
     (case st of (bc, bw, hv) \<Rightarrow>
        (hv \<longleftrightarrow> (\<exists>a \<in> set seen. leadsToViableHead h a je ce))
        \<and> (hv \<longrightarrow> (\<exists>b. bc = Some b \<and> b \<in> set seen \<and> leadsToViableHead h b je ce
                       \<and> bw = weight (h b)
                       \<and> (\<forall>a \<in> set seen. leadsToViableHead h a je ce \<longrightarrow> dominated h a b))))"

text \<open>
  A state of the loop in which a best child is set whenever a viable one was seen, and
  what the walk establishes at a node \<open>n\<close> with the children \<open>cs\<close>.
\<close>

definition wfBest :: "best \<Rightarrow> bool" where
  "wfBest st \<longleftrightarrow> (case st of (bc, bw, hv) \<Rightarrow> hv \<longrightarrow> bc \<noteq> None)"

definition bestDescendantOK :: "heap \<Rightarrow> epoch \<Rightarrow> epoch \<Rightarrow> addr \<Rightarrow> addr list \<Rightarrow> bool" where
  "bestDescendantOK h je ce n cs \<longleftrightarrow>
     (if \<forall>a \<in> set cs. \<not> leadsToViableHead h a je ce
      then bestDescendant (h n) = None
      else \<exists>b \<in> set cs. leadsToViableHead h b je ce
             \<and> (\<forall>a \<in> set cs. leadsToViableHead h a je ce \<longrightarrow>
                   weight (h a) < weight (h b)
                   \<or> (weight (h a) = weight (h b)
                      \<and> bytes_Compare (root (h a)) (root (h b)) \<le> 0))
             \<and> bestDescendant (h n)
                 = (case bestDescendant (h b) of None \<Rightarrow> Some b | Some d \<Rightarrow> Some d))"

text \<open>
  The same at every node of a shape: a node without children has no best descendant,
  and a node with children has the one that the choice among its children gives.
\<close>

fun bestAll :: "epoch \<Rightarrow> epoch \<Rightarrow> heap \<Rightarrow> shape \<Rightarrow> bool" where
  "bestAll je ce h (Shape n ts) \<longleftrightarrow>
     (if ts = [] then bestDescendant (h n) = None
      else bestDescendantOK h je ce n (map top ts))
     \<and> (\<forall>t \<in> set ts. bestAll je ce h t)"

subsection \<open>Concrete weak-subjectivity inputs\<close>

text \<open>
  A database that holds every block but whose \<open>BlockRoots\<close> query fails, a database
  that returns one root for every window, helpers for 32 slots per epoch with the
  clock at a given slot, and a verifier for epoch 10 with the start slot of that epoch.
\<close>

definition failingRootsDB :: weakSubjectivityDB where
  "failingRootsDB = \<lparr>HasBlock = (\<lambda>r. True), BlockRoots = (\<lambda>s e. Inl (External 0))\<rparr>"

definition oneRootDB :: "root \<Rightarrow> weakSubjectivityDB" where
  "oneRootDB r = \<lparr>HasBlock = (\<lambda>x. x = r), BlockRoots = (\<lambda>s e. Inr [r])\<rparr>"

definition exampleConfig :: BeaconConfig where
  "exampleConfig = \<lparr>ZeroHash = replicate 32 0, SlotsPerEpoch = 32, ProposerScoreBoost = 40\<rparr>"

definition exampleHelpers :: "slot \<Rightarrow> helpers" where
  "exampleHelpers now =
     \<lparr>EpochStart = (\<lambda>e. Inr (e * 32)), ToEpoch = (\<lambda>s. s div 32),
      SinceEpochStarts = (\<lambda>s. s mod 32), CurrentSlot = (\<lambda>g. now),
      ToBytes32 = (\<lambda>b. take 32 (b @ replicate 32 0))\<rparr>"

definition exampleVerifier :: "weakSubjectivityDB \<Rightarrow> WeakSubjectivityVerifier" where
  "exampleVerifier d =
     \<lparr>enabled = True, verified = False, wsroot = replicate 32 1, wsepoch = 10,
      wsslot = 320, db = Some d\<rparr>"


subsection \<open>Concrete fork-choice inputs\<close>

text \<open>The zero value of \<^verbatim>\<open>Node\<close>, and a node with a root of 32 bytes \<open>b\<close>.\<close>

definition zeroNode :: Node where
  "zeroNode =
     \<lparr>slot = 0, root = replicate 32 0, parent = None, children = [], justifiedEpoch = 0,
      unrealizedJustifiedEpoch = 0, finalizedEpoch = 0, unrealizedFinalizedEpoch = 0,
      balance = 0, weight = 0, bestDescendant = None, optimistic = False,
      payloadHash = replicate 32 0, timestamp = 0\<rparr>"

definition nodeWithRoot :: "byte \<Rightarrow> Node" where
  "nodeWithRoot b = zeroNode\<lparr>root := replicate 32 b\<rparr>"

definition zeroCheckpoint :: Checkpoint where
  "zeroCheckpoint = \<lparr>Epoch = 0, Root = replicate 32 0\<rparr>"

definition checkpointAt :: "epoch \<Rightarrow> byte \<Rightarrow> Checkpoint" where
  "checkpointAt e b = \<lparr>Epoch = e, Root = replicate 32 b\<rparr>"

text \<open>A store with one node, of root \<open>0x0101..\<close>, at address 1.\<close>

definition oneNodeStore :: Store where
  "oneNodeStore =
     \<lparr>justifiedCheckpoint = zeroCheckpoint, prevJustifiedCheckpoint = zeroCheckpoint,
      finalizedCheckpoint = zeroCheckpoint, prevFinalizedCheckpoint = zeroCheckpoint,
      unrealizedJustifiedCheckpoint = zeroCheckpoint,
      unrealizedFinalizedCheckpoint = zeroCheckpoint, proposerBoostRoot = replicate 32 0,
      previousProposerBoostRoot = replicate 32 0, previousProposerBoostScore = 0,
      committeeWeight = 1000, genesisTime = 0,
      nodeByRoot = [replicate 32 1 \<mapsto> Some 1]\<rparr>"

definition oneNodeHeap :: heap where
  "oneNodeHeap = (\<lambda>a. zeroNode)(1 := nodeWithRoot 1)"

text \<open>
  The same store when the node carried the previous boost, recorded with score 1,
  and its balance is 0.
\<close>

definition underflowStore :: Store where
  "underflowStore =
     oneNodeStore\<lparr>previousProposerBoostRoot := replicate 32 1, previousProposerBoostScore := 1\<rparr>"

text \<open>
  A store whose unrealized justified checkpoint is at epoch 5 and whose unrealized
  finalized checkpoint is at epoch 3, a node at address 2 whose parent is the node at
  address 1, and a state of epoch 12 on which the unrealized checkpoints are computed
  as epoch 4 and epoch 4.
\<close>

definition tipsStore :: Store where
  "tipsStore =
     oneNodeStore\<lparr>unrealizedJustifiedCheckpoint := checkpointAt 5 5,
                  unrealizedFinalizedCheckpoint := checkpointAt 3 3,
                  nodeByRoot := [replicate 32 1 \<mapsto> Some 1, replicate 32 2 \<mapsto> Some 2]\<rparr>"

definition tipsHeap :: heap where
  "tipsHeap = (\<lambda>a. zeroNode)
     (1 := (nodeWithRoot 1)\<lparr>children := [Some 2]\<rparr>,
      2 := (nodeWithRoot 2)\<lparr>parent := Some 1, justifiedEpoch := 5, finalizedEpoch := 4\<rparr>)"

definition tipsState :: "slot \<Rightarrow> epoch \<Rightarrow> epoch \<Rightarrow> BeaconState" where
  "tipsState sl j f =
     \<lparr>Slot = sl, UnrealizedCheckpoints = Inr (checkpointAt j 7, checkpointAt f 8)\<rparr>"

text \<open>A balances provider that always answers with two balances.\<close>

definition exampleProvider :: "root \<Rightarrow> error + u64 list" where
  "exampleProvider r = Inr [32, 32]"

definition oneNodeForkChoice :: ForkChoice where
  "oneNodeForkChoice = \<lparr>store = oneNodeStore, justifiedBalances = []\<rparr>"

text \<open>
  The memory of the one-node store after
  \<open>setUnrealizedJustifiedEpoch\<close> has raised the node's unrealized justified epoch to 1.
\<close>

definition raisedHeap :: heap where
  "raisedHeap = oneNodeHeap(1 := (nodeWithRoot 1)\<lparr>unrealizedJustifiedEpoch := 1\<rparr>)"

text \<open>
  A tree of three nodes: the node at address 1 with the children at 2 and 3, of roots
  \<open>0x1111..\<close> and \<open>0x2222..\<close>, with balances 10, 5 and 7 and no weight yet; the memory
  after \<open>applyWeightChanges\<close>, and the memory after \<open>updateBestDescendant\<close> with all
  epochs 0.
\<close>

definition treeHeap :: heap where
  "treeHeap = (\<lambda>a. zeroNode)
     (1 := (nodeWithRoot 1)\<lparr>children := [Some 2, Some 3], balance := 10\<rparr>,
      2 := (nodeWithRoot 17)\<lparr>parent := Some 1, balance := 5\<rparr>,
      3 := (nodeWithRoot 34)\<lparr>parent := Some 1, balance := 7\<rparr>)"

definition treeShape :: shape where
  "treeShape = Shape 1 [Shape 2 [], Shape 3 []]"

definition treeHeapWeighted :: heap where
  "treeHeapWeighted = treeHeap
     (2 := (treeHeap 2)\<lparr>weight := 5\<rparr>, 3 := (treeHeap 3)\<lparr>weight := 7\<rparr>,
      1 := (treeHeap 1)\<lparr>weight := 22\<rparr>)"

text \<open>
  A tree of four nodes: the node at address 1 with the children at 2 and 3, the node
  at 3 with the child at 4, all of weight 0, with roots \<open>0x0101..\<close>, \<open>0x1111..\<close>,
  \<open>0x2222..\<close> and \<open>0x3333..\<close>; the nodes at 1 and 2 hold best descendants from an
  earlier state of the tree. Then the memory after \<open>updateBestDescendant\<close> with all
  epochs 0.
\<close>

definition deepHeap :: heap where
  "deepHeap = (\<lambda>a. zeroNode)
     (1 := (nodeWithRoot 1)\<lparr>children := [Some 2, Some 3], bestDescendant := Some 2\<rparr>,
      2 := (nodeWithRoot 17)\<lparr>parent := Some 1, bestDescendant := Some 1\<rparr>,
      3 := (nodeWithRoot 34)\<lparr>parent := Some 1, children := [Some 4]\<rparr>,
      4 := (nodeWithRoot 51)\<lparr>parent := Some 3\<rparr>)"

definition deepShape :: shape where
  "deepShape = Shape 1 [Shape 2 [], Shape 3 [Shape 4 []]]"

definition deepHeapBest :: heap where
  "deepHeapBest = deepHeap
     (1 := (deepHeap 1)\<lparr>bestDescendant := Some 4\<rparr>,
      2 := (deepHeap 2)\<lparr>bestDescendant := None\<rparr>,
      3 := (deepHeap 3)\<lparr>bestDescendant := Some 4\<rparr>)"

section \<open>Properties\<close>

lemma rootsContain_set: "rootsContain r xs \<longleftrightarrow> r \<in> set xs"
  by (induction xs) auto

text \<open>
  Claim C1. For every node and every pair of epochs, \<open>viableForHead\<close> answers true
  exactly when the store's justified epoch is 0, or the node's justified epoch equals
  it, or the node's justified epoch plus 2 (an addition of \<^verbatim>\<open>uint64\<close>) is at least the
  current epoch.
\<close>

theorem viableForHead_iff:
  "viableForHead n je ce \<longleftrightarrow> je = 0 \<or> justifiedEpoch n = je \<or> justifiedEpoch n + 2 \<ge> ce"
  by (simp add: viableForHead_def)

text \<open>
  As long as the node's justified epoch plus 2 fits into 64 bits, the last comparison
  is the comparison of the numbers.
\<close>

lemma viableForHead_no_wrap:
  assumes "unat (justifiedEpoch n) + 2 < 2 ^ 64"
  shows "viableForHead n je ce \<longleftrightarrow>
           je = 0 \<or> justifiedEpoch n = je \<or> unat ce \<le> unat (justifiedEpoch n) + 2"
proof -
  from assms have "unat (justifiedEpoch n + 2) = unat (justifiedEpoch n) + 2"
    by (simp add: unat_word_ariths)
  then show ?thesis
    by (simp add: viableForHead_def word_le_nat_alt)
qed

subsection \<open>Weak subjectivity\<close>

text \<open>
  Claim C10. A verifier constructed from a nil checkpoint, from a checkpoint with an
  empty root or from a checkpoint of epoch 0 is disabled; and \<open>VerifyWeakSubjectivity\<close>
  on any disabled verifier returns nil for every finalized epoch, leaves the verifier
  as it is and makes no call to the database.
\<close>

theorem NewWeakSubjectivityVerifier_disabled:
  "((wsc = None \<or> (\<exists>c. wsc = Some c \<and> (length (Root c) = 0 \<or> Epoch c = 0)))
     \<longrightarrow> (\<exists>v. NewWeakSubjectivityVerifier env wsc d = Inr v \<and> \<not> enabled v))
   \<and> (\<not> enabled w \<longrightarrow> VerifyWeakSubjectivity cfg w fe = (None, w, []))"
  by (auto simp: NewWeakSubjectivityVerifier_def VerifyWeakSubjectivity_def
                 disabledVerifier_def)

theorem NewWeakSubjectivityVerifier_disabled_witness:
  "(\<exists>v. NewWeakSubjectivityVerifier (exampleHelpers 400) (Some \<lparr>Epoch = 0, Root = [1, 2, 3]\<rparr>)
           (Some failingRootsDB) = Inr v \<and> \<not> enabled v)
   \<and> \<not> enabled disabledVerifier
   \<and> VerifyWeakSubjectivity exampleConfig disabledVerifier 12 = (None, disabledVerifier, [])"
  using NewWeakSubjectivityVerifier_disabled
    [of "Some \<lparr>Epoch = 0, Root = [1, 2, 3]\<rparr>" "exampleHelpers 400" "Some failingRootsDB"
        disabledVerifier exampleConfig 12]
  by (simp add: disabledVerifier_def)

text \<open>
  Claim C9, as stated, at a database that has the block but whose \<open>BlockRoots\<close> query
  returns an error: the call neither succeeds nor fails with
  \<open>errWSBlockNotFoundInEpoch\<close>; it returns the error of the database.
\<close>

theorem VerifyWeakSubjectivity_db_error_counterexample:
  "enabled (exampleVerifier failingRootsDB)
   \<and> \<not> verified (exampleVerifier failingRootsDB)
   \<and> wsepoch (exampleVerifier failingRootsDB) \<le> 12
   \<and> HasBlock failingRootsDB (wsroot (exampleVerifier failingRootsDB))
   \<and> fst (VerifyWeakSubjectivity exampleConfig (exampleVerifier failingRootsDB) 12) \<noteq> None
   \<and> fst (VerifyWeakSubjectivity exampleConfig (exampleVerifier failingRootsDB) 12)
       \<noteq> Some errWSBlockNotFoundInEpoch"
  by (simp add: VerifyWeakSubjectivity_def exampleVerifier_def failingRootsDB_def
                exampleConfig_def)

text \<open>
  Claim C9, amended. Let the verifier be constructed from a checkpoint with a
  database, be enabled, and have its epoch at most the finalized epoch. Then the
  checkpoint is not nil, its start slot \<open>s\<close> is \<open>EpochStart\<close> of its epoch, and with \<open>r\<close>
  the configured root: the call fails with \<open>errWSBlockNotFound\<close> when \<open>HasBlock r\<close> is
  false; otherwise it queries \<open>BlockRoots\<close> with start slot \<open>s\<close> and end slot
  \<open>s + SlotsPerEpoch\<close>, returns the error of that query if it fails, and otherwise
  succeeds exactly when the returned roots contain \<open>r\<close>, failing with
  \<open>errWSBlockNotFoundInEpoch\<close> if they do not. On success \<open>verified\<close> is set, and every
  call on a verified verifier, whatever the database answers then, returns nil and
  makes no call to the database.
\<close>

theorem VerifyWeakSubjectivity_outcome:
  assumes new: "NewWeakSubjectivityVerifier env wsc (Some d) = Inr v"
      and en: "enabled v"
      and le: "wsepoch v \<le> fe"
  shows "\<exists>c s. wsc = Some c \<and> wsepoch v = Epoch c \<and> EpochStart env (Epoch c) = Inr s
           \<and> VerifyWeakSubjectivity cfg v fe =
               (if \<not> HasBlock d (ToBytes32 env (Root c))
                then (Some errWSBlockNotFound, v, [HasBlockCall (ToBytes32 env (Root c))])
                else (case BlockRoots d s (s + SlotsPerEpoch cfg) of
                        Inl e \<Rightarrow>
                          (Some e, v,
                           [HasBlockCall (ToBytes32 env (Root c)),
                            BlockRootsCall s (s + SlotsPerEpoch cfg)])
                      | Inr rs \<Rightarrow>
                          if ToBytes32 env (Root c) \<in> set rs
                          then (None, v\<lparr>verified := True\<rparr>,
                                [HasBlockCall (ToBytes32 env (Root c)),
                                 BlockRootsCall s (s + SlotsPerEpoch cfg)])
                          else (Some errWSBlockNotFoundInEpoch, v,
                                [HasBlockCall (ToBytes32 env (Root c)),
                                 BlockRootsCall s (s + SlotsPerEpoch cfg)])))
           \<and> VerifyWeakSubjectivity cfg' (v\<lparr>verified := True, db := d'\<rparr>) fe'
               = (None, v\<lparr>verified := True, db := d'\<rparr>, [])"
proof -
  from new en obtain c where c: "wsc = Some c"
    by (cases wsc) (auto simp: NewWeakSubjectivityVerifier_def disabledVerifier_def)
  from new en c have ne: "\<not> (length (Root c) = 0 \<or> Epoch c = 0)"
    by (auto simp: NewWeakSubjectivityVerifier_def disabledVerifier_def split: if_splits)
  from new c ne obtain s where s: "EpochStart env (Epoch c) = Inr s"
    and v: "v = \<lparr>enabled = True, verified = False, wsroot = ToBytes32 env (Root c),
                 wsepoch = Epoch c, wsslot = s, db = Some d\<rparr>"
    by (auto simp: NewWeakSubjectivityVerifier_def split: sum.splits)
  from le v have le': "\<not> fe < Epoch c" by simp
  have run: "VerifyWeakSubjectivity cfg v fe =
               (if \<not> HasBlock d (ToBytes32 env (Root c))
                then (Some errWSBlockNotFound, v, [HasBlockCall (ToBytes32 env (Root c))])
                else (case BlockRoots d s (s + SlotsPerEpoch cfg) of
                        Inl e \<Rightarrow>
                          (Some e, v,
                           [HasBlockCall (ToBytes32 env (Root c)),
                            BlockRootsCall s (s + SlotsPerEpoch cfg)])
                      | Inr rs \<Rightarrow>
                          if ToBytes32 env (Root c) \<in> set rs
                          then (None, v\<lparr>verified := True\<rparr>,
                                [HasBlockCall (ToBytes32 env (Root c)),
                                 BlockRootsCall s (s + SlotsPerEpoch cfg)])
                          else (Some errWSBlockNotFoundInEpoch, v,
                                [HasBlockCall (ToBytes32 env (Root c)),
                                 BlockRootsCall s (s + SlotsPerEpoch cfg)])))"
    using le' by (simp add: VerifyWeakSubjectivity_def v rootsContain_set Let_def
                       split: sum.splits)
  have latch: "VerifyWeakSubjectivity cfg' (v\<lparr>verified := True, db := d'\<rparr>) fe'
                 = (None, v\<lparr>verified := True, db := d'\<rparr>, [])"
    by (simp add: VerifyWeakSubjectivity_def)
  from c s v run latch show ?thesis by simp
qed

theorem VerifyWeakSubjectivity_outcome_witness:
  "NewWeakSubjectivityVerifier (exampleHelpers 400) (Some \<lparr>Epoch = 10, Root = replicate 32 1\<rparr>)
     (Some (oneRootDB (replicate 32 1))) = Inr (exampleVerifier (oneRootDB (replicate 32 1)))
   \<and> enabled (exampleVerifier (oneRootDB (replicate 32 1)))
   \<and> wsepoch (exampleVerifier (oneRootDB (replicate 32 1))) \<le> 12
   \<and> VerifyWeakSubjectivity exampleConfig (exampleVerifier (oneRootDB (replicate 32 1))) 12
       = (None, (exampleVerifier (oneRootDB (replicate 32 1)))\<lparr>verified := True\<rparr>,
          [HasBlockCall (replicate 32 1), BlockRootsCall 320 352])
   \<and> VerifyWeakSubjectivity exampleConfig
        ((exampleVerifier (oneRootDB (replicate 32 1)))\<lparr>verified := True, db := None\<rparr>) 13
       = (None, (exampleVerifier (oneRootDB (replicate 32 1)))\<lparr>verified := True, db := None\<rparr>, [])"
proof -
  have new: "NewWeakSubjectivityVerifier (exampleHelpers 400) (Some \<lparr>Epoch = 10, Root = replicate 32 1\<rparr>)
     (Some (oneRootDB (replicate 32 1))) = Inr (exampleVerifier (oneRootDB (replicate 32 1)))"
    by (simp add: NewWeakSubjectivityVerifier_def exampleHelpers_def exampleVerifier_def)
  have en: "enabled (exampleVerifier (oneRootDB (replicate 32 1)))"
    by (simp add: exampleVerifier_def)
  have le: "wsepoch (exampleVerifier (oneRootDB (replicate 32 1))) \<le> 12"
    by (simp add: exampleVerifier_def)
  from VerifyWeakSubjectivity_outcome [OF new en le, of exampleConfig exampleConfig None 13]
  have "VerifyWeakSubjectivity exampleConfig (exampleVerifier (oneRootDB (replicate 32 1))) 12
       = (None, (exampleVerifier (oneRootDB (replicate 32 1)))\<lparr>verified := True\<rparr>,
          [HasBlockCall (replicate 32 1), BlockRootsCall 320 352])
   \<and> VerifyWeakSubjectivity exampleConfig
        ((exampleVerifier (oneRootDB (replicate 32 1)))\<lparr>verified := True, db := None\<rparr>) 13
       = (None, (exampleVerifier (oneRootDB (replicate 32 1)))\<lparr>verified := True, db := None\<rparr>, [])"
    by (simp add: exampleHelpers_def oneRootDB_def exampleConfig_def)
  with new en le show ?thesis by simp
qed

subsection \<open>Proposer boost\<close>

text \<open>
  Claim C7. Let \<open>applyProposerBoostScore\<close> run, and then run again on a store that
  agrees with the store after the first run in \<open>proposerBoostRoot\<close>, \<open>committeeWeight\<close>,
  the map of nodes and the recorded previous boost, on the memory after the first run.
  Then every node has the balance it had after the first run.
\<close>

theorem applyProposerBoostScore_twice:
  assumes first: "applyProposerBoostScore cfg (s, h) = (e1, s1, h1)"
      and same: "proposerBoostRoot s1' = proposerBoostRoot s1"
                "committeeWeight s1' = committeeWeight s1"
                "nodeByRoot s1' = nodeByRoot s1"
                "previousProposerBoostRoot s1' = previousProposerBoostRoot s1"
                "previousProposerBoostScore s1' = previousProposerBoostScore s1"
      and second: "applyProposerBoostScore cfg (s1', h1) = (e2, s2, h2)"
  shows "\<forall>a. balance (h2 a) = balance (h1 a)"
proof -
  from first have prev: "previousProposerBoostRoot s1 = proposerBoostRoot s"
    and pb: "proposerBoostRoot s1 = proposerBoostRoot s"
    and cw: "committeeWeight s1 = committeeWeight s"
    and nb: "nodeByRoot s1 = nodeByRoot s"
    by (auto simp: applyProposerBoostScore_def Let_def split: prod.splits)
  from first have score: "previousProposerBoostScore s1 =
      (if proposerBoostRoot s \<noteq> ZeroHash cfg
       then (case nodeByRoot s (proposerBoostRoot s) of
               Some (Some a) \<Rightarrow> (committeeWeight s * ProposerScoreBoost cfg) div 100
             | _ \<Rightarrow> 0)
       else 0)"
    by (auto simp: applyProposerBoostScore_def Let_def split: prod.splits option.splits if_splits)
  show ?thesis
  proof (cases "proposerBoostRoot s \<noteq> ZeroHash cfg")
    case False
    with second same prev pb show ?thesis
      by (auto simp: applyProposerBoostScore_def Let_def)
  next
    case nz: True
    show ?thesis
    proof (cases "nodeByRoot s (proposerBoostRoot s)")
      case None
      with second same prev pb nb nz show ?thesis
        by (auto simp: applyProposerBoostScore_def Let_def)
    next
      case (Some q)
      show ?thesis
      proof (cases q)
        case None
        with Some second same prev pb nb nz show ?thesis
          by (auto simp: applyProposerBoostScore_def Let_def)
      next
        case (Some a)
        with \<open>nodeByRoot s (proposerBoostRoot s) = Some q\<close>
        have look: "nodeByRoot s (proposerBoostRoot s) = Some (Some a)" by simp
        from score nz look have sc: "previousProposerBoostScore s1 =
            (committeeWeight s * ProposerScoreBoost cfg) div 100" by simp
        from second same prev pb nb cw nz look sc
        have "h2 = h1(a := (h1 a)\<lparr>balance := balance (h1 a)
                  - (committeeWeight s * ProposerScoreBoost cfg) div 100
                  + (committeeWeight s * ProposerScoreBoost cfg) div 100\<rparr>)"
          by (auto simp: applyProposerBoostScore_def Let_def)
        then show ?thesis by simp
      qed
    qed
  qed
qed

theorem applyProposerBoostScore_twice_witness:
  "applyProposerBoostScore exampleConfig (oneNodeStore\<lparr>proposerBoostRoot := replicate 32 1\<rparr>, oneNodeHeap)
     = (None,
        oneNodeStore\<lparr>proposerBoostRoot := replicate 32 1,
                     previousProposerBoostRoot := replicate 32 1,
                     previousProposerBoostScore := 400\<rparr>,
        oneNodeHeap(1 := (nodeWithRoot 1)\<lparr>balance := 400\<rparr>))
   \<and> (\<forall>a. balance
          (snd (snd (applyProposerBoostScore exampleConfig
             (oneNodeStore\<lparr>proposerBoostRoot := replicate 32 1,
                           previousProposerBoostRoot := replicate 32 1,
                           previousProposerBoostScore := 400\<rparr>,
              oneNodeHeap(1 := (nodeWithRoot 1)\<lparr>balance := 400\<rparr>)))) a)
        = balance ((oneNodeHeap(1 := (nodeWithRoot 1)\<lparr>balance := 400\<rparr>)) a))"
proof -
  have first: "applyProposerBoostScore exampleConfig
       (oneNodeStore\<lparr>proposerBoostRoot := replicate 32 1\<rparr>, oneNodeHeap)
     = (None,
        oneNodeStore\<lparr>proposerBoostRoot := replicate 32 1,
                     previousProposerBoostRoot := replicate 32 1,
                     previousProposerBoostScore := 400\<rparr>,
        oneNodeHeap(1 := (nodeWithRoot 1)\<lparr>balance := 400\<rparr>))"
    by (simp add: applyProposerBoostScore_def exampleConfig_def oneNodeStore_def
                  oneNodeHeap_def nodeWithRoot_def zeroNode_def)
  from applyProposerBoostScore_twice [OF first refl refl refl refl refl surjective_pairing [THEN trans, OF arg_cong [where f = "Pair _", OF surjective_pairing]]]
  show ?thesis using first by simp
qed

text \<open>
  Claim C8, at a store whose previous boost root is not zero and names a node of
  balance 0 while the recorded previous score is 1: the call returns nil, and the
  balance of the node wraps around to \<open>2^64 - 1\<close>.
\<close>

theorem applyProposerBoostScore_underflow:
  "previousProposerBoostRoot underflowStore \<noteq> ZeroHash exampleConfig
   \<and> nodeByRoot underflowStore (previousProposerBoostRoot underflowStore) = Some (Some 1)
   \<and> balance (oneNodeHeap 1) < previousProposerBoostScore underflowStore
   \<and> fst (applyProposerBoostScore exampleConfig (underflowStore, oneNodeHeap)) = None
   \<and> balance (snd (snd (applyProposerBoostScore exampleConfig (underflowStore, oneNodeHeap))) 1)
       = 18446744073709551615"
  by (simp add: applyProposerBoostScore_def exampleConfig_def underflowStore_def
                oneNodeStore_def oneNodeHeap_def nodeWithRoot_def zeroNode_def)

subsection \<open>pullTips\<close>

lemma pullTips_finalized_step:
  "Epoch (unrealizedFinalizedCheckpoint s)
     \<le> Epoch (unrealizedFinalizedCheckpoint (fst (snd (pullTips cfg hp st node jc fc (s, h)))))"
  by (auto simp: pullTips_def Let_def toForkchoiceCheckpoint_def
           split: option.splits prod.splits sum.splits)

lemma pullTipsSeq_finalized:
  "Epoch (unrealizedFinalizedCheckpoint (fst sh))
     \<le> Epoch (unrealizedFinalizedCheckpoint (fst (pullTipsSeq cfg calls sh)))"
proof (induction calls arbitrary: sh)
  case Nil
  show ?case by simp
next
  case (Cons c calls)
  obtain hp st node jc fc where c: "c = (hp, st, node, jc, fc)"
    by (cases c) auto
  obtain s h where sh: "sh = (s, h)"
    by (cases sh) auto
  have "Epoch (unrealizedFinalizedCheckpoint s)
          \<le> Epoch (unrealizedFinalizedCheckpoint (fst (snd (pullTips cfg hp st node jc fc (s, h)))))"
    by (rule pullTips_finalized_step)
  also have "\<dots> \<le> Epoch (unrealizedFinalizedCheckpoint
                      (fst (pullTipsSeq cfg calls (snd (pullTips cfg hp st node jc fc (s, h))))))"
    by (rule Cons.IH)
  finally show ?case by (simp add: c sh)
qed

text \<open>
  Claim C4, as stated, at a store with the unrealized justified checkpoint at epoch 5
  and the unrealized finalized checkpoint at epoch 3, for a node whose state gives the
  unrealized checkpoints of epoch 4 and epoch 4: the finalized checkpoint advances to
  epoch 4, and the justified checkpoint is replaced by one of epoch 4, below the
  stored epoch 5.
\<close>

theorem pullTips_justified_counterexample:
  "Epoch (unrealizedJustifiedCheckpoint
            (fst (snd (pullTips exampleConfig (exampleHelpers 400) (tipsState 390 4 4) 2
                         zeroCheckpoint zeroCheckpoint (tipsStore, tipsHeap)))))
     < Epoch (unrealizedJustifiedCheckpoint tipsStore)"
  by (simp add: pullTips_def exampleConfig_def exampleHelpers_def tipsState_def tipsStore_def
                tipsHeap_def oneNodeStore_def nodeWithRoot_def zeroNode_def checkpointAt_def
                toForkchoiceCheckpoint_def zeroCheckpoint_def)

text \<open>
  Claim C4, amended. Across any sequence of calls of \<open>pullTips\<close> the epoch of the
  store's unrealized finalized checkpoint does not decrease. One call leaves the store
  as it is when the node has no parent or the short-circuit fires. Otherwise, with
  \<open>(uj, uf)\<close> the computed pair (the arguments \<open>(jc, fc)\<close> when the computation fails),
  it changes two fields of the store and no other: the unrealized finalized checkpoint
  becomes \<open>uf\<close> exactly when the epoch of \<open>uf\<close> is strictly greater than the stored
  finalized epoch, and stays otherwise; the unrealized justified checkpoint becomes
  \<open>uj\<close> exactly when the epoch of \<open>uj\<close> is strictly greater than the stored justified
  epoch or the epoch of \<open>uf\<close> is strictly greater than the stored finalized epoch, and
  stays otherwise.
\<close>

theorem pullTips_unrealized_checkpoints:
  "Epoch (unrealizedFinalizedCheckpoint s)
     \<le> Epoch (unrealizedFinalizedCheckpoint (fst (pullTipsSeq cfg calls (s, h))))
   \<and> fst (snd (pullTips cfg hp st node jc fc (s, h)))
       = (case parent (h node) of
            None \<Rightarrow> s
          | Some p \<Rightarrow>
              if unrealizedJustifiedEpoch (h p) = ToEpoch hp (CurrentSlot hp (genesisTime s))
                 \<or> (ToEpoch hp (Slot st) = ToEpoch hp (CurrentSlot hp (genesisTime s))
                    \<and> unrealizedJustifiedEpoch (h p) + 1
                        = ToEpoch hp (CurrentSlot hp (genesisTime s))
                    \<and> SinceEpochStarts hp (Slot st) * 3 < SlotsPerEpoch cfg * 2)
              then s
              else s\<lparr>unrealizedJustifiedCheckpoint :=
                       (if Epoch (unrealizedJustifiedCheckpoint s)
                             < Epoch (fst (case UnrealizedCheckpoints st of
                                             Inl err \<Rightarrow> (jc, fc) | Inr r \<Rightarrow> r))
                           \<or> Epoch (unrealizedFinalizedCheckpoint s)
                             < Epoch (snd (case UnrealizedCheckpoints st of
                                             Inl err \<Rightarrow> (jc, fc) | Inr r \<Rightarrow> r))
                        then toForkchoiceCheckpoint hp
                               (fst (case UnrealizedCheckpoints st of
                                       Inl err \<Rightarrow> (jc, fc) | Inr r \<Rightarrow> r))
                        else unrealizedJustifiedCheckpoint s),
                     unrealizedFinalizedCheckpoint :=
                       (if Epoch (unrealizedFinalizedCheckpoint s)
                             < Epoch (snd (case UnrealizedCheckpoints st of
                                             Inl err \<Rightarrow> (jc, fc) | Inr r \<Rightarrow> r))
                        then toForkchoiceCheckpoint hp
                               (snd (case UnrealizedCheckpoints st of
                                       Inl err \<Rightarrow> (jc, fc) | Inr r \<Rightarrow> r))
                        else unrealizedFinalizedCheckpoint s)\<rparr>)"
proof (intro conjI)
  show "Epoch (unrealizedFinalizedCheckpoint s)
     \<le> Epoch (unrealizedFinalizedCheckpoint (fst (pullTipsSeq cfg calls (s, h))))"
    using pullTipsSeq_finalized [of "(s, h)" cfg calls] by simp
next
  obtain uj uf where comp: "(case UnrealizedCheckpoints st of Inl err \<Rightarrow> (jc, fc) | Inr r \<Rightarrow> r)
                              = (uj, uf)"
    by (cases "case UnrealizedCheckpoints st of Inl err \<Rightarrow> (jc, fc) | Inr r \<Rightarrow> r")
  show "fst (snd (pullTips cfg hp st node jc fc (s, h)))
       = (case parent (h node) of
            None \<Rightarrow> s
          | Some p \<Rightarrow>
              if unrealizedJustifiedEpoch (h p) = ToEpoch hp (CurrentSlot hp (genesisTime s))
                 \<or> (ToEpoch hp (Slot st) = ToEpoch hp (CurrentSlot hp (genesisTime s))
                    \<and> unrealizedJustifiedEpoch (h p) + 1
                        = ToEpoch hp (CurrentSlot hp (genesisTime s))
                    \<and> SinceEpochStarts hp (Slot st) * 3 < SlotsPerEpoch cfg * 2)
              then s
              else s\<lparr>unrealizedJustifiedCheckpoint :=
                       (if Epoch (unrealizedJustifiedCheckpoint s)
                             < Epoch (fst (case UnrealizedCheckpoints st of
                                             Inl err \<Rightarrow> (jc, fc) | Inr r \<Rightarrow> r))
                           \<or> Epoch (unrealizedFinalizedCheckpoint s)
                             < Epoch (snd (case UnrealizedCheckpoints st of
                                             Inl err \<Rightarrow> (jc, fc) | Inr r \<Rightarrow> r))
                        then toForkchoiceCheckpoint hp
                               (fst (case UnrealizedCheckpoints st of
                                       Inl err \<Rightarrow> (jc, fc) | Inr r \<Rightarrow> r))
                        else unrealizedJustifiedCheckpoint s),
                     unrealizedFinalizedCheckpoint :=
                       (if Epoch (unrealizedFinalizedCheckpoint s)
                             < Epoch (snd (case UnrealizedCheckpoints st of
                                             Inl err \<Rightarrow> (jc, fc) | Inr r \<Rightarrow> r))
                        then toForkchoiceCheckpoint hp
                               (snd (case UnrealizedCheckpoints st of
                                       Inl err \<Rightarrow> (jc, fc) | Inr r \<Rightarrow> r))
                        else unrealizedFinalizedCheckpoint s)\<rparr>)"
    unfolding comp fst_conv snd_conv
    by (cases "parent (h node)") (auto simp: pullTips_def Let_def comp)
qed

theorem pullTips_unrealized_checkpoints_witness:
  "parent (tipsHeap 2) = Some 1
   \<and> Epoch (unrealizedJustifiedCheckpoint tipsStore) = 5
   \<and> Epoch (unrealizedFinalizedCheckpoint tipsStore) = 3
   \<and> fst (snd (pullTips exampleConfig (exampleHelpers 400) (tipsState 390 6 5) 2
                  zeroCheckpoint zeroCheckpoint (tipsStore, tipsHeap)))
       = tipsStore\<lparr>unrealizedJustifiedCheckpoint := checkpointAt 6 7,
                   unrealizedFinalizedCheckpoint := checkpointAt 5 8\<rparr>
   \<and> fst (snd (pullTips exampleConfig (exampleHelpers 400) (tipsState 390 4 3) 2
                  zeroCheckpoint zeroCheckpoint (tipsStore, tipsHeap)))
       = tipsStore"
proof -
  have par: "parent (tipsHeap 2) = Some 1"
    by (simp add: tipsHeap_def nodeWithRoot_def zeroNode_def)
  have old: "Epoch (unrealizedJustifiedCheckpoint tipsStore) = 5"
      "Epoch (unrealizedFinalizedCheckpoint tipsStore) = 3"
    by (simp_all add: tipsStore_def oneNodeStore_def checkpointAt_def)
  have raise: "fst (snd (pullTips exampleConfig (exampleHelpers 400) (tipsState 390 6 5) 2
                  zeroCheckpoint zeroCheckpoint (tipsStore, tipsHeap)))
       = tipsStore\<lparr>unrealizedJustifiedCheckpoint := checkpointAt 6 7,
                   unrealizedFinalizedCheckpoint := checkpointAt 5 8\<rparr>"
    using pullTips_unrealized_checkpoints
            [of tipsStore exampleConfig "[]" tipsHeap "exampleHelpers 400" "tipsState 390 6 5" 2
                zeroCheckpoint zeroCheckpoint]
    by (simp add: tipsHeap_def nodeWithRoot_def zeroNode_def tipsStore_def oneNodeStore_def
                  exampleHelpers_def exampleConfig_def tipsState_def checkpointAt_def
                  toForkchoiceCheckpoint_def zeroCheckpoint_def)
  have stay: "fst (snd (pullTips exampleConfig (exampleHelpers 400) (tipsState 390 4 3) 2
                  zeroCheckpoint zeroCheckpoint (tipsStore, tipsHeap)))
       = tipsStore"
    using pullTips_unrealized_checkpoints
            [of tipsStore exampleConfig "[]" tipsHeap "exampleHelpers 400" "tipsState 390 4 3" 2
                zeroCheckpoint zeroCheckpoint]
    by (simp add: tipsHeap_def nodeWithRoot_def zeroNode_def tipsStore_def oneNodeStore_def
                  exampleHelpers_def exampleConfig_def tipsState_def checkpointAt_def
                  toForkchoiceCheckpoint_def zeroCheckpoint_def)
  from par old raise stay show ?thesis by simp
qed

text \<open>
  Claim C6. Let the node have a parent, let the short-circuit test be false, and let
  the epoch of the state be strictly less than the current epoch. Then \<open>pullTips\<close>
  returns the pair \<open>(uj, uf)\<close> that it computed (the arguments \<open>(jc, fc)\<close> when the
  computation fails), and afterwards the node's \<open>justifiedEpoch\<close> is the epoch of \<open>uj\<close>
  and its \<open>finalizedEpoch\<close> is the epoch of \<open>uf\<close>.
\<close>

theorem pullTips_late_block:
  assumes par: "parent (h node) = Some p"
      and nsc: "\<not> (unrealizedJustifiedEpoch (h p) = ToEpoch hp (CurrentSlot hp (genesisTime s))
                  \<or> (ToEpoch hp (Slot st) = ToEpoch hp (CurrentSlot hp (genesisTime s))
                     \<and> unrealizedJustifiedEpoch (h p) + 1 = ToEpoch hp (CurrentSlot hp (genesisTime s))
                     \<and> SinceEpochStarts hp (Slot st) * 3 < SlotsPerEpoch cfg * 2))"
      and late: "ToEpoch hp (Slot st) < ToEpoch hp (CurrentSlot hp (genesisTime s))"
      and comp: "(uj, uf) = (case UnrealizedCheckpoints st of Inl err \<Rightarrow> (jc, fc) | Inr r \<Rightarrow> r)"
  shows "fst (pullTips cfg hp st node jc fc (s, h)) = (uj, uf)
         \<and> justifiedEpoch (snd (snd (pullTips cfg hp st node jc fc (s, h))) node) = Epoch uj
         \<and> finalizedEpoch (snd (snd (pullTips cfg hp st node jc fc (s, h))) node) = Epoch uf"
proof -
  from nsc have a: "unrealizedJustifiedEpoch (h p) \<noteq> ToEpoch hp (CurrentSlot hp (genesisTime s))"
    by simp
  from late have b: "ToEpoch hp (Slot st) \<noteq> ToEpoch hp (CurrentSlot hp (genesisTime s))"
    by auto
  show ?thesis
    using par a b late comp [symmetric]
    by (simp add: pullTips_def Let_def split: prod.splits)
qed

theorem pullTips_late_block_witness:
  "parent (tipsHeap 2) = Some 1
   \<and> ToEpoch (exampleHelpers 400) (Slot (tipsState 352 6 5))
       < ToEpoch (exampleHelpers 400) (CurrentSlot (exampleHelpers 400) (genesisTime tipsStore))
   \<and> justifiedEpoch (tipsHeap 2) = 5 \<and> finalizedEpoch (tipsHeap 2) = 4
   \<and> fst (pullTips exampleConfig (exampleHelpers 400) (tipsState 352 6 5) 2
            zeroCheckpoint zeroCheckpoint (tipsStore, tipsHeap))
       = (checkpointAt 6 7, checkpointAt 5 8)
   \<and> justifiedEpoch (snd (snd (pullTips exampleConfig (exampleHelpers 400) (tipsState 352 6 5) 2
            zeroCheckpoint zeroCheckpoint (tipsStore, tipsHeap))) 2) = 6
   \<and> finalizedEpoch (snd (snd (pullTips exampleConfig (exampleHelpers 400) (tipsState 352 6 5) 2
            zeroCheckpoint zeroCheckpoint (tipsStore, tipsHeap))) 2) = 5"
proof -
  have par: "parent (tipsHeap 2) = Some 1"
    by (simp add: tipsHeap_def nodeWithRoot_def zeroNode_def)
  have nsc: "\<not> (unrealizedJustifiedEpoch (tipsHeap 1)
                   = ToEpoch (exampleHelpers 400) (CurrentSlot (exampleHelpers 400) (genesisTime tipsStore))
                  \<or> (ToEpoch (exampleHelpers 400) (Slot (tipsState 352 6 5))
                       = ToEpoch (exampleHelpers 400) (CurrentSlot (exampleHelpers 400) (genesisTime tipsStore))
                     \<and> unrealizedJustifiedEpoch (tipsHeap 1) + 1
                         = ToEpoch (exampleHelpers 400) (CurrentSlot (exampleHelpers 400) (genesisTime tipsStore))
                     \<and> SinceEpochStarts (exampleHelpers 400) (Slot (tipsState 352 6 5)) * 3
                         < SlotsPerEpoch exampleConfig * 2))"
    by (simp add: tipsHeap_def nodeWithRoot_def zeroNode_def exampleHelpers_def tipsState_def)
  have late: "ToEpoch (exampleHelpers 400) (Slot (tipsState 352 6 5))
       < ToEpoch (exampleHelpers 400) (CurrentSlot (exampleHelpers 400) (genesisTime tipsStore))"
    by (simp add: exampleHelpers_def tipsState_def)
  have comp: "(checkpointAt 6 7, checkpointAt 5 8)
       = (case UnrealizedCheckpoints (tipsState 352 6 5) of
            Inl err \<Rightarrow> (zeroCheckpoint, zeroCheckpoint) | Inr r \<Rightarrow> r)"
    by (simp add: tipsState_def)
  have old: "justifiedEpoch (tipsHeap 2) = 5 \<and> finalizedEpoch (tipsHeap 2) = 4"
    by (simp add: tipsHeap_def nodeWithRoot_def zeroNode_def)
  from pullTips_late_block [OF par nsc late comp] par late old
  show ?thesis by (simp add: checkpointAt_def)
qed

subsection \<open>updateUnrealizedCheckpoints\<close>

text \<open>
  One round of the loop copies the unrealized epochs of its node into the realized
  ones and changes no other node; when it promotes the justified checkpoint, the old
  one becomes the previous one and the unrealized one the current one, and the epoch
  increases if the unrealized justified checkpoint is ahead of the justified one.
\<close>

lemma realizeNode_copies:
  assumes "realizeNode provider node (f, h, rs) = (e, f', h', rs')"
  shows "h' = h(node := (h node)\<lparr>justifiedEpoch := unrealizedJustifiedEpoch (h node),
                                 finalizedEpoch := unrealizedFinalizedEpoch (h node)\<rparr>)"
  using assms
  by (auto simp: realizeNode_def Let_def split: if_splits sum.splits prod.splits option.splits)

lemma realizeNode_promotes:
  assumes "realizeNode provider node (f, h, rs) = (None, f', h', rs')"
      and "Epoch (justifiedCheckpoint (store f)) < unrealizedJustifiedEpoch (h node)"
  shows "prevJustifiedCheckpoint (store f') = justifiedCheckpoint (store f)
         \<and> justifiedCheckpoint (store f') = unrealizedJustifiedCheckpoint (store f)
         \<and> provider (Root (unrealizedJustifiedCheckpoint (store f))) = Inr (justifiedBalances f')"
  using assms
  by (auto simp: realizeNode_def updateJustifiedBalances_def Let_def
           split: if_splits sum.splits prod.splits option.splits)

lemma realizeNode_increases:
  assumes "realizeNode provider node (f, h, rs) = (None, f', h', rs')"
      and "Epoch (justifiedCheckpoint (store f)) < unrealizedJustifiedEpoch (h node)"
      and "Epoch (justifiedCheckpoint (store f)) < Epoch (unrealizedJustifiedCheckpoint (store f))"
  shows "Epoch (justifiedCheckpoint (store f)) < Epoch (justifiedCheckpoint (store f'))"
  using realizeNode_promotes [OF assms(1,2)] assms(3) by simp

lemma realizeNodes_copies:
  "realizeNodes provider ps (f, h, rs) = (None, f', h', rs')
     \<Longrightarrow> (\<forall>a. unrealizedJustifiedEpoch (h' a) = unrealizedJustifiedEpoch (h a)
              \<and> unrealizedFinalizedEpoch (h' a) = unrealizedFinalizedEpoch (h a))
         \<and> (\<forall>a. Some a \<in> set ps \<longrightarrow>
                justifiedEpoch (h' a) = unrealizedJustifiedEpoch (h a)
                \<and> finalizedEpoch (h' a) = unrealizedFinalizedEpoch (h a))
         \<and> (\<forall>a. Some a \<notin> set ps \<longrightarrow> h' a = h a)"
proof (induction ps arbitrary: f h rs)
  case Nil
  then show ?case by simp
next
  case (Cons p ps)
  from Cons.prems obtain node where p: "p = Some node" by (cases p) auto
  obtain e1 f1 h1 rs1 where one: "realizeNode provider node (f, h, rs) = (e1, f1, h1, rs1)"
    by (cases "realizeNode provider node (f, h, rs)") auto
  from Cons.prems p one have rest: "realizeNodes provider ps (f1, h1, rs1) = (None, f', h', rs')"
    by (cases e1) auto
  note h1 = realizeNode_copies [OF one]
  note ih = Cons.IH [OF rest]
  show ?case
  proof (intro conjI allI impI)
    fix a
    show "unrealizedJustifiedEpoch (h' a) = unrealizedJustifiedEpoch (h a)"
      using ih by (simp add: h1)
    show "unrealizedFinalizedEpoch (h' a) = unrealizedFinalizedEpoch (h a)"
      using ih by (simp add: h1)
  next
    fix a assume a: "Some a \<in> set (p # ps)"
    show "justifiedEpoch (h' a) = unrealizedJustifiedEpoch (h a)"
    proof (cases "Some a \<in> set ps")
      case True
      with ih show ?thesis by (simp add: h1)
    next
      case False
      with a p have "a = node" by simp
      moreover from ih False have "h' a = h1 a" by simp
      ultimately show ?thesis by (simp add: h1)
    qed
    show "finalizedEpoch (h' a) = unrealizedFinalizedEpoch (h a)"
    proof (cases "Some a \<in> set ps")
      case True
      with ih show ?thesis by (simp add: h1)
    next
      case False
      with a p have "a = node" by simp
      moreover from ih False have "h' a = h1 a" by simp
      ultimately show ?thesis by (simp add: h1)
    qed
  next
    fix a assume "Some a \<notin> set (p # ps)"
    with p have "a \<noteq> node" "Some a \<notin> set ps" by auto
    with ih show "h' a = h a" by (simp add: h1)
  qed
qed

text \<open>
  When the balances provider fails, the call returns its error with the node's epochs
  copied and the justified checkpoint already promoted.
\<close>

lemma realizeNode_provider_error:
  assumes "Epoch (justifiedCheckpoint (store f)) < unrealizedJustifiedEpoch (h node)"
      and "provider (Root (unrealizedJustifiedCheckpoint (store f))) = Inl e"
  shows "\<exists>rs'. realizeNode provider node (f, h, rs)
           = (Some e,
              f\<lparr>store := (store f)
                   \<lparr>prevJustifiedCheckpoint := justifiedCheckpoint (store f),
                    justifiedCheckpoint := unrealizedJustifiedCheckpoint (store f)\<rparr>\<rparr>,
              h(node := (h node)\<lparr>justifiedEpoch := unrealizedJustifiedEpoch (h node),
                                finalizedEpoch := unrealizedFinalizedEpoch (h node)\<rparr>),
              rs')"
  using assms
  by (simp add: realizeNode_def updateJustifiedBalances_def Let_def)

text \<open>
  Claim C5, at the store with one node and all checkpoints at epoch 0, after
  \<open>setUnrealizedJustifiedEpoch\<close> has set the node's unrealized justified epoch to 1:
  \<open>updateUnrealizedCheckpoints\<close> copies the epoch into the node, finds it greater than
  the store's justified epoch 0, moves the justified checkpoint to the previous one,
  takes the unrealized justified checkpoint, of epoch 0, as the justified checkpoint and
  refreshes the balances. The epoch of the justified checkpoint is 0 before and after:
  the promotion does not increase it, and the code's assertion that the justified
  epoch increases is the one report of the call.
\<close>

theorem updateUnrealizedCheckpoints_no_increase:
  "setUnrealizedJustifiedEpoch (replicate 32 1) 1 (oneNodeStore, oneNodeHeap) = (None, raisedHeap)
   \<and> updateUnrealizedCheckpoints exampleProvider [replicate 32 1] (oneNodeForkChoice, raisedHeap)
       = (None, \<lparr>store = oneNodeStore, justifiedBalances = [32, 32]\<rparr>,
          raisedHeap(1 := (nodeWithRoot 1)\<lparr>unrealizedJustifiedEpoch := 1, justifiedEpoch := 1\<rparr>),
          [JustifiedEpochDidNotIncrease])
   \<and> Epoch (justifiedCheckpoint (store oneNodeForkChoice)) < 1
   \<and> Epoch (justifiedCheckpoint oneNodeStore) = Epoch (justifiedCheckpoint (store oneNodeForkChoice))"
  by (simp add: setUnrealizedJustifiedEpoch_def updateUnrealizedCheckpoints_def
                List.map_filter_def realizeNode_def updateJustifiedBalances_def assertAlways_def
                exampleProvider_def oneNodeForkChoice_def raisedHeap_def oneNodeStore_def
                oneNodeHeap_def nodeWithRoot_def zeroNode_def zeroCheckpoint_def)

subsection \<open>The walks over the tree\<close>

lemma ctxErr_None [simp]: "ctxErr None = (None, None)"
  by (simp add: ctxErr_def)

lemma top_in_addrs: "top t \<in> set (addrs t)"
  by (cases t) simp

lemma isTree_cong:
  "isTree h t \<Longrightarrow> (\<forall>a \<in> set (addrs t). children (h' a) = children (h a)) \<Longrightarrow> isTree h' t"
proof (induction t)
  case (Shape a ts)
  then show ?case by auto
qed

lemma weightsOK_cong:
  "weightsOK cfg h g t \<Longrightarrow> (\<forall>a \<in> set (addrs t). h' a = h a \<and> g' a = g a)
     \<Longrightarrow> weightsOK cfg h' g' t"
proof (induction t)
  case (Shape a ts)
  have tops: "\<And>t. t \<in> set ts \<Longrightarrow> g' (top t) = g (top t)"
  proof -
    fix t assume t: "t \<in> set ts"
    have "top t \<in> set (addrs t)" by (rule top_in_addrs)
    with t Shape.prems(2) show "g' (top t) = g (top t)" by auto
  qed
  then have sums: "map (\<lambda>t. weight (g' (top t))) ts = map (\<lambda>t. weight (g (top t))) ts"
    by simp
  from Shape.prems have here: "h' a = h a" "g' a = g a" by auto
  have sub: "\<forall>t \<in> set ts. weightsOK cfg h' g' t"
  proof
    fix t assume t: "t \<in> set ts"
    from Shape.prems(1) t have "weightsOK cfg h g t" by simp
    moreover from Shape.prems(2) t have "\<forall>a \<in> set (addrs t). h' a = h a \<and> g' a = g a" by auto
    ultimately show "weightsOK cfg h' g' t" using Shape.IH t by blast
  qed
  from Shape.prems(1) show ?case by (simp add: sums here sub)
qed

lemma keepsFields_refl: "keepsFields h h"
  by (simp add: keepsFields_def)

lemma keepsFields_trans: "keepsFields h g \<Longrightarrow> keepsFields g k \<Longrightarrow> keepsFields h k"
  by (simp add: keepsFields_def)

lemma keepsFields_weight:
  "keepsFields h g \<Longrightarrow> keepsFields h (g(n := (g n)\<lparr>weight := w\<rparr>))"
  by (simp add: keepsFields_def)

text \<open>One step of \<open>applyWeightChanges\<close> and of its loop, by outcome.\<close>

lemma applyWeightChanges_Suc_cases:
  assumes "applyWeightChanges (Suc k) cfg n (h, c) = Some (e, h', c')"
  obtains (err) err where "applyWeightChangesLoop k cfg (children (h n)) 0 (h, c) = Some (Inl err, h', c')"
                          "e = Some err"
        | (ok) w h1 where "applyWeightChangesLoop k cfg (children (h n)) 0 (h, c) = Some (Inr w, h1, c')"
                          "e = None"
                          "h' = (if root (h1 n) = ZeroHash cfg then h1
                                 else h1(n := (h1 n)\<lparr>weight := balance (h1 n) + w\<rparr>))"
  using assms by (auto split: option.splits sum.splits if_splits)

lemma applyWeightChangesLoop_Cons_cases:
  assumes "applyWeightChangesLoop k cfg (Some a # rest) w (h, c) = Some (r, h', c')"
  obtains (cancel) err where "ctxErr c = (Some err, c')" "r = Inl err" "h' = h"
        | (child_err) c1 err where "ctxErr c = (None, c1)"
                          "applyWeightChanges k cfg a (h, c1) = Some (Some err, h', c')" "r = Inl err"
        | (continue) c1 h1 c2 where "ctxErr c = (None, c1)"
                          "applyWeightChanges k cfg a (h, c1) = Some (None, h1, c2)"
                          "applyWeightChangesLoop k cfg rest (w + weight (h1 a)) (h1, c2) = Some (r, h', c')"
  using assms by (auto split: option.splits sum.splits if_splits prod.splits)

lemma isTree_keepsFields: "isTree h t \<Longrightarrow> keepsFields h h' \<Longrightarrow> isTree h' t"
  by (erule isTree_cong) (simp add: keepsFields_def)

lemma applyWeightChangesLoop_post:
  assumes P: "\<And>t h c e h' c'. isTree h t \<Longrightarrow> distinct (addrs t)
                \<Longrightarrow> applyWeightChanges k cfg (top t) (h, c) = Some (e, h', c')
                \<Longrightarrow> awcPost cfg t h e h'"
  shows "(\<forall>t \<in> set ts. isTree h t) \<Longrightarrow> distinct (concat (map addrs ts))
         \<Longrightarrow> applyWeightChangesLoop k cfg (map (\<lambda>t. Some (top t)) ts) w (h, c) = Some (r, h', c')
         \<Longrightarrow> awcLoopPost cfg ts w h r h'"
proof (induction ts arbitrary: w h c)
  case Nil
  then show ?case by (auto simp: awcLoopPost_def keepsFields_refl)
next
  case (Cons t ts)
  from Cons.prems(1) have tree_t: "isTree h t" and trees: "\<forall>u \<in> set ts. isTree h u"
    by auto
  from Cons.prems(2) have dt: "distinct (addrs t)" and dts: "distinct (concat (map addrs ts))"
    and disj: "set (addrs t) \<inter> set (concat (map addrs ts)) = {}"
    by auto
  from Cons.prems(3)
  have run: "applyWeightChangesLoop k cfg (Some (top t) # map (\<lambda>t. Some (top t)) ts) w (h, c)
               = Some (r, h', c')" by simp
  from run show ?case
  proof (cases rule: applyWeightChangesLoop_Cons_cases)
    case (cancel err)
    then show ?thesis by (simp add: awcLoopPost_def keepsFields_refl)
  next
    case (child_err c1 err)
    from P [OF tree_t dt child_err(2)] have "awcPost cfg t h (Some err) h'" .
    with child_err(3) show ?thesis by (auto simp: awcLoopPost_def awcPost_def)
  next
    case (continue c1 h1 c2)
    from P [OF tree_t dt continue(2)] have p1: "awcPost cfg t h None h1" .
    then have fr1: "\<forall>a. a \<notin> set (addrs t) \<longrightarrow> h1 a = h a" and kf1: "keepsFields h h1"
      and ok1: "weightsOK cfg h h1 t"
      by (auto simp: awcPost_def)
    from trees kf1 have trees1: "\<forall>u \<in> set ts. isTree h1 u"
      by (blast intro: isTree_keepsFields)
    from Cons.IH [OF trees1 dts continue(3)]
    have p2: "awcLoopPost cfg ts (w + weight (h1 (top t))) h1 r h'" .
    then have fr2: "\<forall>a. a \<notin> set (concat (map addrs ts)) \<longrightarrow> h' a = h1 a"
      and kf2: "keepsFields h1 h'"
      by (auto simp: awcLoopPost_def)
    have same_t: "\<forall>a \<in> set (addrs t). h' a = h1 a"
      using fr2 disj by blast
    have same_ts: "\<forall>u \<in> set ts. \<forall>a \<in> set (addrs u). h1 a = h a"
      using fr1 disj by auto
    have frame: "\<forall>a. a \<notin> set (concat (map addrs (t # ts))) \<longrightarrow> h' a = h a"
      using fr1 fr2 by simp
    have kf: "keepsFields h h'"
      using kf1 kf2 by (rule keepsFields_trans)
    have res: "\<forall>w'. r = Inr w' \<longrightarrow>
           w' = w + sum_list (map (\<lambda>t. weight (h' (top t))) (t # ts))
           \<and> (\<forall>u \<in> set (t # ts). weightsOK cfg h h' u)"
    proof (intro allI impI)
      fix w' assume r: "r = Inr w'"
      from p2 r have w': "w' = (w + weight (h1 (top t))) + sum_list (map (\<lambda>t. weight (h' (top t))) ts)"
        and oks: "\<forall>u \<in> set ts. weightsOK cfg h1 h' u"
        by (auto simp: awcLoopPost_def)
      have "h' (top t) = h1 (top t)"
        using same_t top_in_addrs [of t] by blast
      with w' have sum: "w' = w + sum_list (map (\<lambda>t. weight (h' (top t))) (t # ts))"
        by (simp add: add.assoc)
      have okt: "weightsOK cfg h h' t"
        using ok1 same_t by (auto intro: weightsOK_cong)
      have okts: "\<forall>u \<in> set ts. weightsOK cfg h h' u"
      proof
        fix u assume u: "u \<in> set ts"
        with oks have "weightsOK cfg h1 h' u" by simp
        moreover from same_ts u have "\<forall>a \<in> set (addrs u). h a = h1 a \<and> h' a = h' a" by simp
        ultimately show "weightsOK cfg h h' u" by (rule weightsOK_cong)
      qed
      from sum okt okts
      show "w' = w + sum_list (map (\<lambda>t. weight (h' (top t))) (t # ts))
            \<and> (\<forall>u \<in> set (t # ts). weightsOK cfg h h' u)" by simp
    qed
    from frame kf res show ?thesis unfolding awcLoopPost_def by blast
  qed
qed

lemma applyWeightChanges_post:
  "isTree h t \<Longrightarrow> distinct (addrs t)
     \<Longrightarrow> applyWeightChanges k cfg (top t) (h, c) = Some (e, h', c')
     \<Longrightarrow> awcPost cfg t h e h'"
proof (induction k arbitrary: t h c e h' c')
  case 0
  then show ?case by simp
next
  case (Suc k)
  obtain n ts where t: "t = Shape n ts" by (cases t)
  from Suc.prems(1) t have ch: "children (h n) = map (\<lambda>t. Some (top t)) ts"
    and trees: "\<forall>u \<in> set ts. isTree h u" by auto
  from Suc.prems(2) t have nn: "n \<notin> set (concat (map addrs ts))"
    and dts: "distinct (concat (map addrs ts))" by auto
  from Suc.prems(3) t have run: "applyWeightChanges (Suc k) cfg n (h, c) = Some (e, h', c')"
    by simp
  have tops: "\<forall>u \<in> set ts. top u \<noteq> n"
    using nn top_in_addrs by fastforce
  from run show ?case
  proof (cases rule: applyWeightChanges_Suc_cases)
    case (err er)
    from err(1) ch
    have "applyWeightChangesLoop k cfg (map (\<lambda>t. Some (top t)) ts) 0 (h, c) = Some (Inl er, h', c')"
      by simp
    from applyWeightChangesLoop_post [OF Suc.IH trees dts this]
    have "awcLoopPost cfg ts 0 h (Inl er) h'" .
    with err(2) t show ?thesis by (auto simp: awcLoopPost_def awcPost_def)
  next
    case (ok w h1)
    from ok(1) ch
    have "applyWeightChangesLoop k cfg (map (\<lambda>t. Some (top t)) ts) 0 (h, c) = Some (Inr w, h1, c')"
      by simp
    from applyWeightChangesLoop_post [OF Suc.IH trees dts this]
    have lp: "awcLoopPost cfg ts 0 h (Inr w) h1" .
    then have fr1: "\<forall>a. a \<notin> set (concat (map addrs ts)) \<longrightarrow> h1 a = h a"
      and kf1: "keepsFields h h1"
      and w: "w = sum_list (map (\<lambda>t. weight (h1 (top t))) ts)"
      and oks: "\<forall>u \<in> set ts. weightsOK cfg h h1 u"
      by (auto simp: awcLoopPost_def)
    from fr1 nn have h1n: "h1 n = h n" by simp
    have off: "\<forall>a. a \<noteq> n \<longrightarrow> h' a = h1 a"
      using ok(3) by simp
    have frame: "\<forall>a. a \<notin> set (addrs t) \<longrightarrow> h' a = h a"
      using off fr1 t by simp
    have kf: "keepsFields h h'"
      using kf1 ok(3) by (simp add: keepsFields_weight)
    have sums: "map (\<lambda>t. weight (h' (top t))) ts = map (\<lambda>t. weight (h1 (top t))) ts"
      using off tops by simp
    have sub: "\<forall>u \<in> set ts. weightsOK cfg h h' u"
    proof
      fix u assume u: "u \<in> set ts"
      with oks have "weightsOK cfg h h1 u" by simp
      moreover have "\<forall>a \<in> set (addrs u). h a = h a \<and> h' a = h1 a"
        using off nn u by auto
      ultimately show "weightsOK cfg h h' u" by (rule weightsOK_cong)
    qed
    have total: "sum_list (map (\<lambda>t. weight (h' (top t))) ts) = w"
      by (simp only: sums w)
    have rt: "root (h' n) = root (h n)"
      using ok(3) h1n by simp
    have z: "root (h n) = ZeroHash cfg \<Longrightarrow> weight (h' n) = weight (h n)"
      using ok(3) h1n by simp
    have nz: "root (h n) \<noteq> ZeroHash cfg \<Longrightarrow> weight (h' n) = balance (h' n) + w"
      using ok(3) h1n by simp
    have here: "if root (h' n) = ZeroHash cfg then weight (h' n) = weight (h n)
                else weight (h' n) = balance (h' n) + sum_list (map (\<lambda>t. weight (h' (top t))) ts)"
      using z nz by (simp only: total rt split: if_split) blast
    from here sub have "weightsOK cfg h h' (Shape n ts)" by simp
    with frame kf t show ?thesis by (simp add: awcPost_def)
  qed
qed

lemma depth_child: "u \<in> set ts \<Longrightarrow> depth u \<le> Max (insert 0 (depth ` set ts))"
  by (rule Max_ge) auto

lemma applyWeightChangesLoop_returns:
  assumes P: "\<And>t h. isTree h t \<Longrightarrow> distinct (addrs t) \<Longrightarrow> depth t \<le> k
                \<Longrightarrow> \<exists>h'. applyWeightChanges k cfg (top t) (h, None) = Some (None, h', None)"
  shows "(\<forall>t \<in> set ts. isTree h t \<and> depth t \<le> k) \<Longrightarrow> distinct (concat (map addrs ts))
         \<Longrightarrow> \<exists>w' h'. applyWeightChangesLoop k cfg (map (\<lambda>t. Some (top t)) ts) w (h, None)
                       = Some (Inr w', h', None)"
proof (induction ts arbitrary: w h)
  case Nil
  show ?case by simp
next
  case (Cons t ts)
  from Cons.prems have tree_t: "isTree h t" and dep: "depth t \<le> k"
    and dt: "distinct (addrs t)" and dts: "distinct (concat (map addrs ts))"
    by auto
  from P [OF tree_t dt dep] obtain h1
    where run1: "applyWeightChanges k cfg (top t) (h, None) = Some (None, h1, None)" by blast
  from applyWeightChanges_post [OF tree_t dt run1] have kf: "keepsFields h h1"
    by (simp add: awcPost_def)
  from Cons.prems(1) kf have "\<forall>u \<in> set ts. isTree h1 u \<and> depth u \<le> k"
    by (auto intro: isTree_keepsFields)
  from Cons.IH [OF this dts, of "w + weight (h1 (top t))"] obtain w' h'
    where "applyWeightChangesLoop k cfg (map (\<lambda>t. Some (top t)) ts) (w + weight (h1 (top t)))
             (h1, None) = Some (Inr w', h', None)" by blast
  with run1 show ?case by simp
qed

lemma applyWeightChanges_returns:
  "isTree h t \<Longrightarrow> distinct (addrs t) \<Longrightarrow> depth t \<le> k
     \<Longrightarrow> \<exists>h'. applyWeightChanges k cfg (top t) (h, None) = Some (None, h', None)"
proof (induction k arbitrary: t h)
  case 0
  then show ?case by (cases t) simp
next
  case (Suc k)
  obtain n ts where t: "t = Shape n ts" by (cases t)
  from Suc.prems(1) t have ch: "children (h n) = map (\<lambda>t. Some (top t)) ts"
    and trees: "\<forall>u \<in> set ts. isTree h u" by auto
  from Suc.prems(2) t have dts: "distinct (concat (map addrs ts))" by auto
  from Suc.prems(3) t have "\<forall>u \<in> set ts. depth u \<le> k"
    using depth_child [of _ ts] by fastforce
  with trees have pre: "\<forall>u \<in> set ts. isTree h u \<and> depth u \<le> k" by simp
  from applyWeightChangesLoop_returns [OF Suc.IH pre dts, where w = 0] obtain w' h1
    where "applyWeightChangesLoop k cfg (map (\<lambda>t. Some (top t)) ts) 0 (h, None)
             = Some (Inr w', h1, None)" by blast
  with ch t show ?case by simp
qed

lemma childNodes_tree: "isTree h (Shape a ts) \<Longrightarrow> childNodes (h a) = map top ts"
  by (simp add: childNodes_def List.map_filter_def comp_def)

lemma weightsOK_node:
  "weightsOK cfg h h' t \<Longrightarrow> isTree h' t \<Longrightarrow> a \<in> set (addrs t)
     \<Longrightarrow> (if root (h' a) = ZeroHash cfg then weight (h' a) = weight (h a)
          else weight (h' a) = balance (h' a) + sum_list (map (\<lambda>x. weight (h' x)) (childNodes (h' a))))"
proof (induction t)
  case (Shape n ts)
  show ?case
  proof (cases "a = n")
    case True
    from Shape.prems(2) have "childNodes (h' n) = map top ts" by (rule childNodes_tree)
    with Shape.prems(1) True show ?thesis by (simp add: comp_def)
  next
    case False
    with Shape.prems(3) obtain u where u: "u \<in> set ts" "a \<in> set (addrs u)" by auto
    with Shape.prems(1,2) have "weightsOK cfg h h' u" "isTree h' u" by auto
    with Shape.IH u show ?thesis by blast
  qed
qed

lemma keepsFields_only_weight:
  "keepsFields h h' \<Longrightarrow> h' a = (h a)\<lparr>weight := weight (h' a)\<rparr>"
  by (rule Node.equality) (simp_all add: keepsFields_def)

text \<open>
  Claim C3. Let the memory hold a tree of distinct nodes under the node on which
  \<open>applyWeightChanges\<close> is called. With fuel for the depth of the tree and a context that
  is not cancelled the call returns nil. Whenever the call returns nil, it has changed
  nothing but the \<open>weight\<close> of nodes of the tree, and for every node of the tree, with
  its balance and its children as they were passed in: if its root is not the zero
  hash, its weight is its balance plus the sum of the weights of its children (sums of
  \<^verbatim>\<open>uint64\<close>); if its root is the zero hash, its weight is the weight that it had before
  the call.
\<close>

theorem applyWeightChanges_weight_equation:
  assumes tree: "isTree h t" and dist: "distinct (addrs t)"
  shows "(depth t \<le> k \<longrightarrow> (\<exists>g. applyWeightChanges k cfg (top t) (h, None) = Some (None, g, None)))
       \<and> (applyWeightChanges k cfg (top t) (h, c) = Some (None, h', c') \<longrightarrow>
           (\<forall>a. h' a = (h a)\<lparr>weight := weight (h' a)\<rparr>)
           \<and> (\<forall>a. a \<notin> set (addrs t) \<longrightarrow> h' a = h a)
           \<and> (\<forall>a \<in> set (addrs t).
                 if root (h a) = ZeroHash cfg then weight (h' a) = weight (h a)
                 else weight (h' a)
                        = balance (h a) + sum_list (map (\<lambda>x. weight (h' x)) (childNodes (h a)))))"
proof (intro conjI impI)
  assume "depth t \<le> k"
  with tree dist show "\<exists>g. applyWeightChanges k cfg (top t) (h, None) = Some (None, g, None)"
    by (rule applyWeightChanges_returns)
next
  assume run: "applyWeightChanges k cfg (top t) (h, c) = Some (None, h', c')"
  from applyWeightChanges_post [OF tree dist run]
  have ok: "weightsOK cfg h h' t" and kf: "keepsFields h h'"
    and frame: "\<forall>a. a \<notin> set (addrs t) \<longrightarrow> h' a = h a"
    by (simp_all add: awcPost_def)
  from kf show "\<forall>a. h' a = (h a)\<lparr>weight := weight (h' a)\<rparr>"
    by (blast intro: keepsFields_only_weight)
  from frame show "\<forall>a. a \<notin> set (addrs t) \<longrightarrow> h' a = h a" .
  from tree kf have tree': "isTree h' t" by (rule isTree_keepsFields)
  show "\<forall>a \<in> set (addrs t).
           if root (h a) = ZeroHash cfg then weight (h' a) = weight (h a)
           else weight (h' a)
                  = balance (h a) + sum_list (map (\<lambda>x. weight (h' x)) (childNodes (h a)))"
  proof
    fix a assume a: "a \<in> set (addrs t)"
    from kf have same: "root (h' a) = root (h a)" "balance (h' a) = balance (h a)"
        "childNodes (h' a) = childNodes (h a)"
      by (simp_all add: keepsFields_def childNodes_def)
    from weightsOK_node [OF ok tree' a]
    show "if root (h a) = ZeroHash cfg then weight (h' a) = weight (h a)
          else weight (h' a)
                 = balance (h a) + sum_list (map (\<lambda>x. weight (h' x)) (childNodes (h a)))"
      by (simp only: same)
  qed
qed

theorem applyWeightChanges_weight_equation_witness:
  "isTree treeHeap treeShape \<and> distinct (addrs treeShape) \<and> depth treeShape \<le> Suc (Suc 0)
   \<and> applyWeightChanges (Suc (Suc 0)) exampleConfig (top treeShape) (treeHeap, Some 7)
       = Some (None, treeHeapWeighted, Some 5)
   \<and> (\<exists>g. applyWeightChanges (Suc (Suc 0)) exampleConfig (top treeShape) (treeHeap, None)
             = Some (None, g, None))
   \<and> balance (treeHeap 1) = 10 \<and> balance (treeHeap 2) = 5 \<and> balance (treeHeap 3) = 7
   \<and> childNodes (treeHeap 1) = [2, 3]
   \<and> weight (treeHeapWeighted 2) = 5 \<and> weight (treeHeapWeighted 3) = 7
   \<and> weight (treeHeapWeighted 1) = 22"
proof -
  have tree: "isTree treeHeap treeShape"
    by (simp add: treeHeap_def nodeWithRoot_def zeroNode_def treeShape_def)
  have dist: "distinct (addrs treeShape)"
    by (simp add: treeShape_def)
  have dep: "depth treeShape \<le> Suc (Suc 0)"
    by (simp add: treeShape_def)
  have run: "applyWeightChanges (Suc (Suc 0)) exampleConfig (top treeShape) (treeHeap, Some 7)
       = Some (None, treeHeapWeighted, Some 5)"
    by (simp add: treeHeap_def nodeWithRoot_def zeroNode_def treeShape_def exampleConfig_def
                  treeHeapWeighted_def ctxErr_def fun_eq_iff)
  have nodes: "addrs treeShape = [1, 2, 3]"
    by (simp add: treeShape_def)
  have roots: "root (treeHeap 1) \<noteq> ZeroHash exampleConfig"
      "root (treeHeap 2) \<noteq> ZeroHash exampleConfig"
      "root (treeHeap 3) \<noteq> ZeroHash exampleConfig"
    by (simp_all add: treeHeap_def nodeWithRoot_def zeroNode_def exampleConfig_def)
  have balances: "balance (treeHeap 1) = 10" "balance (treeHeap 2) = 5"
      "balance (treeHeap 3) = 7"
    by (simp_all add: treeHeap_def nodeWithRoot_def zeroNode_def)
  have kids: "childNodes (treeHeap 1) = [2, 3]" "childNodes (treeHeap 2) = []"
      "childNodes (treeHeap 3) = []"
    by (simp_all add: treeHeap_def nodeWithRoot_def zeroNode_def
                      childNodes_def List.map_filter_def)
  from applyWeightChanges_weight_equation [OF tree dist, of "Suc (Suc 0)" exampleConfig
         "Some 7" treeHeapWeighted "Some 5"] dep run
  have ret: "\<exists>g. applyWeightChanges (Suc (Suc 0)) exampleConfig (top treeShape) (treeHeap, None)
             = Some (None, g, None)"
    and eq: "\<forall>a \<in> set (addrs treeShape).
         if root (treeHeap a) = ZeroHash exampleConfig
         then weight (treeHeapWeighted a) = weight (treeHeap a)
         else weight (treeHeapWeighted a)
                = balance (treeHeap a)
                  + sum_list (map (\<lambda>x. weight (treeHeapWeighted x)) (childNodes (treeHeap a)))"
    by blast+
  from eq have w2: "weight (treeHeapWeighted 2) = 5"
    by (simp add: nodes roots balances kids del: One_nat_def)
  from eq have w3: "weight (treeHeapWeighted 3) = 7"
    by (simp add: nodes roots balances kids del: One_nat_def)
  from eq have "weight (treeHeapWeighted 1)
                  = 10 + (weight (treeHeapWeighted 2) + weight (treeHeapWeighted 3))"
    by (simp add: nodes roots balances kids del: One_nat_def)
  then have w1: "weight (treeHeapWeighted 1) = 22"
    by (simp add: w2 w3)
  from tree dist dep run ret balances kids(1) w2 w3 w1 show ?thesis by simp
qed

lemma keepsView_refl: "keepsView h h"
  by (simp add: keepsView_def)

lemma keepsView_trans: "keepsView h g \<Longrightarrow> keepsView g k \<Longrightarrow> keepsView h k"
  by (simp add: keepsView_def)

lemma keepsView_best:
  "keepsView h g \<Longrightarrow> keepsView h (g(n := (g n)\<lparr>bestDescendant := d\<rparr>))"
  by (simp add: keepsView_def)

lemma isTree_keepsView: "isTree h t \<Longrightarrow> keepsView h h' \<Longrightarrow> isTree h' t"
  by (erule isTree_cong) (simp add: keepsView_def)

lemma leadsToViableHead_cong:
  assumes "keepsView h g" and "bestDescendant (g a) = bestDescendant (h a)"
  shows "leadsToViableHead g a je ce = leadsToViableHead h a je ce"
proof -
  from assms(1) have "\<And>x. viableForHead (g x) je ce = viableForHead (h x) je ce"
    by (simp add: keepsView_def viableForHead_def)
  with assms(2) show ?thesis by (simp add: leadsToViableHead_def split: option.split)
qed

lemma compareChild_cong:
  assumes kv: "keepsView h g" and bd: "bestDescendant (g a) = bestDescendant (h a)"
  shows "compareChild g a je ce st = compareChild h a je ce st"
proof -
  from kv have w: "\<And>x. weight (g x) = weight (h x)" and r: "\<And>x. root (g x) = root (h x)"
    by (simp_all add: keepsView_def)
  show ?thesis
    by (cases st) (simp add: compareChild_def Let_def leadsToViableHead_cong [OF kv bd] w r
                         split: option.split)
qed

lemma selectBest_cong:
  "keepsView h g \<Longrightarrow> (\<forall>a \<in> set as. bestDescendant (g a) = bestDescendant (h a))
     \<Longrightarrow> selectBest g je ce as st = selectBest h je ce as st"
proof (induction as arbitrary: st)
  case Nil
  show ?case by simp
next
  case (Cons a as)
  from Cons.prems have eq: "compareChild g a je ce st = compareChild h a je ce st"
    by (intro compareChild_cong) simp_all
  from Cons.prems have "\<And>st'. selectBest g je ce as st' = selectBest h je ce as st'"
    by (intro Cons.IH) simp_all
  with eq show ?case by (simp split: sum.split)
qed

text \<open>One step of \<open>updateBestDescendant\<close> and of its loop, by outcome.\<close>

lemma updateBestDescendantLoop_Cons_cases:
  assumes run: "updateBestDescendantLoop k (Some a # rest) je fe ce st (h, c) = Some (r, h', c')"
  obtains (child_err) err where "updateBestDescendant k a je fe ce (h, c) = Some (Some err, h', c')"
                           "r = Inl err"
        | (compare_err) err where "updateBestDescendant k a je fe ce (h, c) = Some (None, h', c')"
                           "compareChild h' a je ce st = Inl err" "r = Inl err"
        | (continue) h1 c1 st1 where "updateBestDescendant k a je fe ce (h, c) = Some (None, h1, c1)"
                           "compareChild h1 a je ce st = Inr st1"
                           "updateBestDescendantLoop k rest je fe ce st1 (h1, c1) = Some (r, h', c')"
proof (cases "updateBestDescendant k a je fe ce (h, c)")
  case None
  with run show ?thesis by simp
next
  case (Some x)
  obtain e1 h1 c1 where x: "x = (e1, h1, c1)" by (cases x)
  show ?thesis
  proof (cases e1)
    case (Some err)
    with run \<open>updateBestDescendant k a je fe ce (h, c) = Some x\<close> x show ?thesis
      by (intro child_err [of err]) auto
  next
    case None
    note ok = \<open>updateBestDescendant k a je fe ce (h, c) = Some x\<close> [unfolded x None]
    show ?thesis
    proof (cases "compareChild h1 a je ce st")
      case (Inl err)
      with run ok show ?thesis
        by (intro compare_err [of err]) auto
    next
      case (Inr st1)
      with run ok show ?thesis
        by (intro continue [of h1 c1 st1]) auto
    qed
  qed
qed

lemma updateBestDescendant_Suc_cases:
  assumes run: "updateBestDescendant (Suc k) n je fe ce (h, c) = Some (e, h', c')"
  obtains (cancel) err where "ctxErr c = (Some err, c')" "e = Some err" "h' = h"
        | (leaf) "ctxErr c = (None, c')" "children (h n) = []" "e = None"
                 "h' = h(n := (h n)\<lparr>bestDescendant := None\<rparr>)"
        | (loop_err) c1 err where "ctxErr c = (None, c1)" "children (h n) \<noteq> []"
                 "updateBestDescendantLoop k (children (h n)) je fe ce (None, 0, False) (h, c1)
                    = Some (Inl err, h', c')" "e = Some err"
        | (nil_best) c1 bw where "ctxErr c = (None, c1)" "children (h n) \<noteq> []"
                 "updateBestDescendantLoop k (children (h n)) je fe ce (None, 0, False) (h, c1)
                    = Some (Inr (None, bw, True), h', c')" "e = Some NilPointerDereference"
        | (chosen) c1 b bw h1 where "ctxErr c = (None, c1)" "children (h n) \<noteq> []"
                 "updateBestDescendantLoop k (children (h n)) je fe ce (None, 0, False) (h, c1)
                    = Some (Inr (Some b, bw, True), h1, c')" "e = None"
                 "h' = h1(n := (h1 n)\<lparr>bestDescendant :=
                           (case bestDescendant (h1 b) of None \<Rightarrow> Some b | Some d \<Rightarrow> Some d)\<rparr>)"
        | (none_viable) c1 bc bw h1 where "ctxErr c = (None, c1)" "children (h n) \<noteq> []"
                 "updateBestDescendantLoop k (children (h n)) je fe ce (None, 0, False) (h, c1)
                    = Some (Inr (bc, bw, False), h1, c')" "e = None"
                 "h' = h1(n := (h1 n)\<lparr>bestDescendant := None\<rparr>)"
proof -
  obtain e0 c1 where poll: "ctxErr c = (e0, c1)" by (cases "ctxErr c")
  show ?thesis
  proof (cases e0)
    case (Some err)
    with run poll show ?thesis by (intro cancel [of err]) simp_all
  next
    case None
    note poll = poll [unfolded None]
    show ?thesis
    proof (cases "children (h n) = []")
      case True
      with run poll show ?thesis by (intro leaf) simp_all
    next
      case False
      show ?thesis
      proof (cases "updateBestDescendantLoop k (children (h n)) je fe ce (None, 0, False) (h, c1)")
        case None
        with run poll False show ?thesis by simp
      next
        case (Some x)
        obtain r h1 c2 where x: "x = (r, h1, c2)" by (cases x)
        note lp = Some [unfolded x]
        show ?thesis
        proof (cases r)
          case (Inl err)
          with run poll False lp show ?thesis by (intro loop_err [of c1 err]) simp_all
        next
          case (Inr st)
          obtain bc bw hv where st: "st = (bc, bw, hv)" by (cases st)
          note lp = lp [unfolded Inr st]
          show ?thesis
          proof (cases hv)
            case False
            with run poll \<open>children (h n) \<noteq> []\<close> lp show ?thesis
              by (intro none_viable [of c1 bc bw h1]) simp_all
          next
            case True
            then have hv: "hv = True" by simp
            note lp = lp [unfolded hv]
            show ?thesis
            proof (cases bc)
              case None
              with run poll \<open>children (h n) \<noteq> []\<close> lp hv show ?thesis
                by (intro nil_best [of c1 bw]) simp_all
            next
              case (Some b)
              with run poll \<open>children (h n) \<noteq> []\<close> lp hv show ?thesis
                by (intro chosen [of c1 b bw h1]) (simp_all split: option.split_asm)
            qed
          qed
        qed
      qed
    qed
  qed
qed

lemma bytes_Compare_refl: "bytes_Compare x x = 0"
  by (induction x) auto

lemma bytes_Compare_flip: "0 < bytes_Compare x y \<Longrightarrow> bytes_Compare y x \<le> 0"
proof (induction x arbitrary: y)
  case Nil
  then show ?case by (cases y) auto
next
  case (Cons a x)
  then show ?case by (cases y) (auto split: if_splits)
qed

lemma bytes_Compare_trans:
  "bytes_Compare x y \<le> 0 \<Longrightarrow> bytes_Compare y z \<le> 0 \<Longrightarrow> bytes_Compare x z \<le> 0"
proof (induction x arbitrary: y z)
  case Nil
  then show ?case by (cases z) auto
next
  case (Cons a x)
  show ?case
  proof (cases y)
    case Nil
    with Cons.prems show ?thesis by simp
  next
    case y: (Cons b y')
    show ?thesis
    proof (cases z)
      case Nil
      with Cons.prems y show ?thesis by (auto split: if_splits)
    next
      case z: (Cons c z')
      from Cons.prems y z have ab: "a \<le> b" and bc: "b \<le> c"
        by (auto split: if_splits)
      show ?thesis
      proof (cases "a < c")
        case True
        with z show ?thesis by simp
      next
        case False
        with ab bc have eq: "a = b" "b = c" by auto
        with Cons.prems y z have "bytes_Compare x y' \<le> 0" "bytes_Compare y' z' \<le> 0"
          by auto
        then have "bytes_Compare x z' \<le> 0" by (rule Cons.IH)
        with eq z show ?thesis by simp
      qed
    qed
  qed
qed

lemma bytes_Compare_replicate:
  "0 < n \<Longrightarrow> bytes_Compare (replicate n a) (replicate n b)
                = (if a < b then - 1 else if b < a then 1 else 0)"
  by (cases n) (auto simp: bytes_Compare_refl)

text \<open>\<open>bytes_Compare\<close> is the strict lexicographic order on byte strings.\<close>

lemma bytes_Compare_lexord:
  "0 < bytes_Compare x y \<longleftrightarrow> (y, x) \<in> lexord {(a, b). a < b}"
proof (induction x arbitrary: y)
  case Nil
  show ?case by (cases y) auto
next
  case (Cons a x)
  show ?case
  proof (cases y)
    case Nil
    then show ?thesis by simp
  next
    case (Cons b y')
    with Cons.IH [of y'] show ?thesis by auto
  qed
qed

lemma dominated_refl: "dominated h a a"
  by (simp add: dominated_def bytes_Compare_refl)

lemma dominated_trans: "dominated h a b \<Longrightarrow> dominated h b c \<Longrightarrow> dominated h a c"
proof -
  assume ab: "dominated h a b" and bc: "dominated h b c"
  show ?thesis
  proof (cases "weight (h a) = weight (h b) \<and> weight (h b) = weight (h c)")
    case True
    with ab bc have "bytes_Compare (root (h a)) (root (h b)) \<le> 0"
      "bytes_Compare (root (h b)) (root (h c)) \<le> 0"
      by (auto simp: dominated_def)
    then have "bytes_Compare (root (h a)) (root (h c)) \<le> 0" by (rule bytes_Compare_trans)
    with True show ?thesis by (simp add: dominated_def)
  next
    case False
    with ab bc have "weight (h a) < weight (h c)"
      by (auto simp: dominated_def)
    then show ?thesis by (simp add: dominated_def)
  qed
qed

lemma dominated_heavier: "weight (h b) < weight (h a) \<Longrightarrow> dominated h b a"
  by (simp add: dominated_def)

lemma dominated_greater_root:
  "weight (h a) = weight (h b) \<Longrightarrow> 0 < bytes_Compare (root (h a)) (root (h b)) \<Longrightarrow> dominated h b a"
  by (simp add: dominated_def bytes_Compare_flip)

lemma dominated_keep:
  "\<not> weight (h b) < weight (h a)
     \<Longrightarrow> (weight (h a) = weight (h b) \<longrightarrow> \<not> 0 < bytes_Compare (root (h a)) (root (h b)))
     \<Longrightarrow> dominated h a b"
  by (auto simp: dominated_def)

lemma bestInv_init: "bestInv h je ce [] (None, 0, False)"
  by (simp add: bestInv_def)

lemma compareChild_inv:
  assumes inv: "bestInv h je ce seen st"
  shows "\<exists>st'. compareChild h a je ce st = Inr st' \<and> bestInv h je ce (seen @ [a]) st'"
proof -
  obtain bc bw hv where st: "st = (bc, bw, hv)" by (cases st)
  show ?thesis
  proof (cases "leadsToViableHead h a je ce")
    case False
    with inv st show ?thesis
      by (auto simp: compareChild_def bestInv_def)
  next
    case via: True
    show ?thesis
    proof (cases hv)
      case False
      with inv st via show ?thesis
        by (auto simp: compareChild_def bestInv_def dominated_refl)
    next
      case True
      with inv st obtain b where b: "bc = Some b" "b \<in> set seen" "leadsToViableHead h b je ce"
          "bw = weight (h b)"
        and dom: "\<forall>x \<in> set seen. leadsToViableHead h x je ce \<longrightarrow> dominated h x b"
        by (auto simp: bestInv_def)
      show ?thesis
      proof (cases "weight (h b) < weight (h a)
                    \<or> (weight (h a) = weight (h b) \<and> 0 < bytes_Compare (root (h a)) (root (h b)))")
        case take: True
        then have ba: "dominated h b a"
          by (auto intro: dominated_heavier dominated_greater_root)
        have all: "\<forall>x \<in> set (seen @ [a]). leadsToViableHead h x je ce \<longrightarrow> dominated h x a"
          using dom ba by (auto intro: dominated_trans dominated_refl)
        from take have res: "compareChild h a je ce st
              = Inr (Some a, weight (h a), True)"
          using st via True b by (auto simp: compareChild_def)
        have "bestInv h je ce (seen @ [a]) (Some a, weight (h a), True)"
          unfolding bestInv_def using via all by auto
        with res show ?thesis by simp
      next
        case keep: False
        then have ab: "dominated h a b"
          by (intro dominated_keep) auto
        have all: "\<forall>x \<in> set (seen @ [a]). leadsToViableHead h x je ce \<longrightarrow> dominated h x b"
          using dom ab by auto
        from keep have res: "compareChild h a je ce st = Inr st"
          using st via True b by (auto simp: compareChild_def)
        have "bestInv h je ce (seen @ [a]) st"
          unfolding bestInv_def st using True b all by auto
        with res show ?thesis by simp
      qed
    qed
  qed
qed

lemma selectBest_inv:
  "bestInv h je ce seen st
     \<Longrightarrow> \<exists>st'. selectBest h je ce as st = Inr st' \<and> bestInv h je ce (seen @ as) st'"
proof (induction as arbitrary: seen st)
  case Nil
  then show ?case by simp
next
  case (Cons a as)
  from compareChild_inv [OF Cons.prems, of a] obtain st1
    where c: "compareChild h a je ce st = Inr st1" and i: "bestInv h je ce (seen @ [a]) st1"
    by blast
  from Cons.IH [OF i] obtain st'
    where "selectBest h je ce as st1 = Inr st'" "bestInv h je ce ((seen @ [a]) @ as) st'"
    by blast
  with c show ?case by simp
qed

lemma updateBestDescendantLoop_post:
  assumes P: "\<And>t h c e h' c'. isTree h t \<Longrightarrow> distinct (addrs t)
                \<Longrightarrow> updateBestDescendant k (top t) je fe ce (h, c) = Some (e, h', c')
                \<Longrightarrow> ubdPost t h h'"
  shows "(\<forall>t \<in> set ts. isTree h t) \<Longrightarrow> distinct (concat (map addrs ts))
         \<Longrightarrow> updateBestDescendantLoop k (map (\<lambda>t. Some (top t)) ts) je fe ce st (h, c)
               = Some (r, h', c')
         \<Longrightarrow> ubdLoopPost je ce ts st h r h'"
proof (induction ts arbitrary: st h c)
  case Nil
  then show ?case by (auto simp: ubdLoopPost_def keepsView_refl)
next
  case (Cons t ts)
  from Cons.prems(1) have tree_t: "isTree h t" and trees: "\<forall>u \<in> set ts. isTree h u"
    by auto
  from Cons.prems(2) have dt: "distinct (addrs t)" and dts: "distinct (concat (map addrs ts))"
    and disj: "set (addrs t) \<inter> set (concat (map addrs ts)) = {}"
    by auto
  from Cons.prems(3)
  have run: "updateBestDescendantLoop k (Some (top t) # map (\<lambda>t. Some (top t)) ts) je fe ce st (h, c)
               = Some (r, h', c')" by simp
  from run show ?case
  proof (cases rule: updateBestDescendantLoop_Cons_cases)
    case (child_err err)
    from P [OF tree_t dt child_err(1)] have "ubdPost t h h'" .
    with child_err(2) show ?thesis by (auto simp: ubdLoopPost_def ubdPost_def)
  next
    case (compare_err err)
    from P [OF tree_t dt compare_err(1)] have "ubdPost t h h'" .
    with compare_err(3) show ?thesis by (auto simp: ubdLoopPost_def ubdPost_def)
  next
    case (continue h1 c1 st1)
    from P [OF tree_t dt continue(1)] have p1: "ubdPost t h h1" .
    then have fr1: "\<forall>a. a \<notin> set (addrs t) \<longrightarrow> h1 a = h a" and kv1: "keepsView h h1"
      by (auto simp: ubdPost_def)
    from trees kv1 have trees1: "\<forall>u \<in> set ts. isTree h1 u"
      by (blast intro: isTree_keepsView)
    from Cons.IH [OF trees1 dts continue(3)]
    have p2: "ubdLoopPost je ce ts st1 h1 r h'" .
    then have fr2: "\<forall>a. a \<notin> set (concat (map addrs ts)) \<longrightarrow> h' a = h1 a"
      and kv2: "keepsView h1 h'"
      by (auto simp: ubdLoopPost_def)
    have frame: "\<forall>a. a \<notin> set (concat (map addrs (t # ts))) \<longrightarrow> h' a = h a"
      using fr1 fr2 by simp
    have kv: "keepsView h h'"
      using kv1 kv2 by (rule keepsView_trans)
    have "top t \<notin> set (concat (map addrs ts))"
      using disj top_in_addrs [of t] by blast
    with fr2 have "bestDescendant (h' (top t)) = bestDescendant (h1 (top t))" by simp
    with kv2 have cmp: "compareChild h' (top t) je ce st = compareChild h1 (top t) je ce st"
      by (rule compareChild_cong)
    have res: "\<forall>st'. r = Inr st' \<longrightarrow> selectBest h' je ce (map top (t # ts)) st = Inr st'"
    proof (intro allI impI)
      fix st' assume "r = Inr st'"
      with p2 have "selectBest h' je ce (map top ts) st1 = Inr st'"
        by (simp add: ubdLoopPost_def)
      with cmp continue(2) show "selectBest h' je ce (map top (t # ts)) st = Inr st'"
        by simp
    qed
    from frame kv res show ?thesis unfolding ubdLoopPost_def by blast
  qed
qed

lemma updateBestDescendant_post:
  "isTree h t \<Longrightarrow> distinct (addrs t)
     \<Longrightarrow> updateBestDescendant k (top t) je fe ce (h, c) = Some (e, h', c')
     \<Longrightarrow> ubdPost t h h'"
proof (induction k arbitrary: t h c e h' c')
  case 0
  then show ?case by simp
next
  case (Suc k)
  obtain n ts where t: "t = Shape n ts" by (cases t)
  from Suc.prems(1) t have ch: "children (h n) = map (\<lambda>t. Some (top t)) ts"
    and trees: "\<forall>u \<in> set ts. isTree h u" by auto
  from Suc.prems(2) t have dts: "distinct (concat (map addrs ts))" by auto
  from Suc.prems(3) t have run: "updateBestDescendant (Suc k) n je fe ce (h, c) = Some (e, h', c')"
    by simp
  have loop: "\<And>c1 r h1 c2.
      updateBestDescendantLoop k (children (h n)) je fe ce (None, 0, False) (h, c1) = Some (r, h1, c2)
      \<Longrightarrow> (\<forall>a. a \<notin> set (concat (map addrs ts)) \<longrightarrow> h1 a = h a) \<and> keepsView h h1"
  proof -
    fix c1 r h1 c2
    assume "updateBestDescendantLoop k (children (h n)) je fe ce (None, 0, False) (h, c1)
              = Some (r, h1, c2)"
    with ch have "updateBestDescendantLoop k (map (\<lambda>t. Some (top t)) ts) je fe ce (None, 0, False)
                    (h, c1) = Some (r, h1, c2)" by simp
    from updateBestDescendantLoop_post [OF Suc.IH trees dts this]
    show "(\<forall>a. a \<notin> set (concat (map addrs ts)) \<longrightarrow> h1 a = h a) \<and> keepsView h h1"
      by (simp add: ubdLoopPost_def)
  qed
  have upd: "\<And>h1 d. (\<forall>a. a \<notin> set (concat (map addrs ts)) \<longrightarrow> h1 a = h a) \<and> keepsView h h1
      \<Longrightarrow> ubdPost t h (h1(n := (h1 n)\<lparr>bestDescendant := d\<rparr>))"
    by (simp add: ubdPost_def t keepsView_best)
  from run show ?case
  proof (cases rule: updateBestDescendant_Suc_cases)
    case (cancel err)
    then show ?thesis by (simp add: ubdPost_def keepsView_refl)
  next
    case leaf
    have "ubdPost t h (h(n := (h n)\<lparr>bestDescendant := None\<rparr>))"
      by (intro upd) (simp add: keepsView_refl)
    then show ?thesis unfolding leaf(4) .
  next
    case (loop_err c1 err)
    from loop [OF loop_err(3)] show ?thesis by (simp add: ubdPost_def t)
  next
    case (nil_best c1 bw)
    from loop [OF nil_best(3)] show ?thesis by (simp add: ubdPost_def t)
  next
    case (chosen c1 b bw h1)
    from upd [OF loop [OF chosen(3)]] show ?thesis unfolding chosen(5) .
  next
    case (none_viable c1 bc bw h1)
    from upd [OF loop [OF none_viable(3)]] show ?thesis unfolding none_viable(5) .
  qed
qed

lemma updateBestDescendant_top:
  assumes tree: "isTree h (Shape n ts)" and dist: "distinct (addrs (Shape n ts))"
      and ne: "ts \<noteq> []"
      and run: "updateBestDescendant k n je fe ce (h, c) = Some (None, h', c')"
  shows "bestDescendantOK h' je ce n (map top ts)"
proof -
  from run obtain k' where k: "k = Suc k'" by (cases k) auto
  from tree have ch: "children (h n) = map (\<lambda>t. Some (top t)) ts"
    and trees: "\<forall>u \<in> set ts. isTree h u" by auto
  from dist have nn: "n \<notin> set (concat (map addrs ts))"
    and dts: "distinct (concat (map addrs ts))" by auto
  have tops: "\<forall>a \<in> set (map top ts). a \<noteq> n"
    using nn top_in_addrs by fastforce
  have P: "\<And>t h c e h' c'. isTree h t \<Longrightarrow> distinct (addrs t)
                \<Longrightarrow> updateBestDescendant k' (top t) je fe ce (h, c) = Some (e, h', c')
                \<Longrightarrow> ubdPost t h h'"
    by (rule updateBestDescendant_post)
  have main: "\<And>c1 st h1 d. updateBestDescendantLoop k' (children (h n)) je fe ce (None, 0, False) (h, c1)
                  = Some (Inr st, h1, c')
      \<Longrightarrow> h' = h1(n := (h1 n)\<lparr>bestDescendant := d\<rparr>)
      \<Longrightarrow> bestInv h' je ce (map top ts) st
          \<and> (\<forall>a \<in> set (map top ts). bestDescendant (h' a) = bestDescendant (h1 a))"
  proof -
    fix c1 st h1 d
    assume lp: "updateBestDescendantLoop k' (children (h n)) je fe ce (None, 0, False) (h, c1)
                  = Some (Inr st, h1, c')"
      and h': "h' = h1(n := (h1 n)\<lparr>bestDescendant := d\<rparr>)"
    from lp ch have "updateBestDescendantLoop k' (map (\<lambda>t. Some (top t)) ts) je fe ce
                       (None, 0, False) (h, c1) = Some (Inr st, h1, c')" by simp
    from updateBestDescendantLoop_post [OF P trees dts this]
    have sel1: "selectBest h1 je ce (map top ts) (None, 0, False) = Inr st"
      by (simp add: ubdLoopPost_def)
    have kv: "keepsView h1 h'"
      unfolding h' by (intro keepsView_best keepsView_refl)
    have same: "\<forall>a \<in> set (map top ts). bestDescendant (h' a) = bestDescendant (h1 a)"
      using tops h' by simp
    from kv same have "selectBest h' je ce (map top ts) (None, 0, False)
                         = selectBest h1 je ce (map top ts) (None, 0, False)"
      by (rule selectBest_cong)
    with sel1 have sel: "selectBest h' je ce (map top ts) (None, 0, False) = Inr st" by simp
    from selectBest_inv [OF bestInv_init, of h' je ce "map top ts"] sel
    have "bestInv h' je ce (map top ts) st" by simp
    with same show "bestInv h' je ce (map top ts) st
          \<and> (\<forall>a \<in> set (map top ts). bestDescendant (h' a) = bestDescendant (h1 a))" by simp
  qed
  from ne ch have nonempty: "children (h n) \<noteq> []" by simp
  from run [unfolded k] show ?thesis
  proof (cases rule: updateBestDescendant_Suc_cases)
    case leaf
    with nonempty show ?thesis by simp
  next
    case (chosen c1 b bw h1)
    from main [OF chosen(3) chosen(5)]
    have inv: "bestInv h' je ce (map top ts) (Some b, bw, True)"
      and same: "\<forall>a \<in> set (map top ts). bestDescendant (h' a) = bestDescendant (h1 a)"
      by simp_all
    from inv have b: "b \<in> set (map top ts)" "leadsToViableHead h' b je ce"
      and dom: "\<forall>a \<in> set (map top ts). leadsToViableHead h' a je ce \<longrightarrow> dominated h' a b"
      by (auto simp: bestInv_def)
    from same b(1) have "bestDescendant (h' b) = bestDescendant (h1 b)" by blast
    with chosen(5) have bd: "bestDescendant (h' n)
          = (case bestDescendant (h' b) of None \<Rightarrow> Some b | Some d \<Rightarrow> Some d)"
      by simp
    from b dom bd show ?thesis
      unfolding bestDescendantOK_def dominated_def by auto
  next
    case (none_viable c1 bc bw h1)
    from main [OF none_viable(3) none_viable(5)]
    have "bestInv h' je ce (map top ts) (bc, bw, False)" by simp
    then have "\<forall>a \<in> set (map top ts). \<not> leadsToViableHead h' a je ce"
      by (simp add: bestInv_def)
    moreover from none_viable(5) have "bestDescendant (h' n) = None" by simp
    ultimately show ?thesis by (simp add: bestDescendantOK_def)
  qed simp_all
qed

lemma compareChild_wf:
  "wfBest st \<Longrightarrow> \<exists>st'. compareChild h a je ce st = Inr st' \<and> wfBest st'"
  by (cases st) (auto simp: compareChild_def wfBest_def Let_def)

lemma updateBestDescendantLoop_returns:
  assumes P: "\<And>t h. isTree h t \<Longrightarrow> distinct (addrs t) \<Longrightarrow> depth t \<le> k
                \<Longrightarrow> \<exists>h'. updateBestDescendant k (top t) je fe ce (h, None) = Some (None, h', None)"
  shows "(\<forall>t \<in> set ts. isTree h t \<and> depth t \<le> k) \<Longrightarrow> distinct (concat (map addrs ts))
         \<Longrightarrow> wfBest st
         \<Longrightarrow> \<exists>st' h'. updateBestDescendantLoop k (map (\<lambda>t. Some (top t)) ts) je fe ce st (h, None)
                       = Some (Inr st', h', None) \<and> wfBest st'"
proof (induction ts arbitrary: st h)
  case Nil
  then show ?case by simp
next
  case (Cons t ts)
  from Cons.prems have tree_t: "isTree h t" and dep: "depth t \<le> k"
    and dt: "distinct (addrs t)" and dts: "distinct (concat (map addrs ts))"
    by auto
  from P [OF tree_t dt dep] obtain h1
    where run1: "updateBestDescendant k (top t) je fe ce (h, None) = Some (None, h1, None)"
    by blast
  from updateBestDescendant_post [OF tree_t dt run1] have kv: "keepsView h h1"
    by (simp add: ubdPost_def)
  from Cons.prems(1) kv have pre: "\<forall>u \<in> set ts. isTree h1 u \<and> depth u \<le> k"
    by (auto intro: isTree_keepsView)
  from compareChild_wf [OF Cons.prems(3), of h1 "top t" je ce] obtain st1
    where cmp: "compareChild h1 (top t) je ce st = Inr st1" and wf1: "wfBest st1" by blast
  from Cons.IH [OF pre dts wf1] obtain st' h'
    where "updateBestDescendantLoop k (map (\<lambda>t. Some (top t)) ts) je fe ce st1 (h1, None)
             = Some (Inr st', h', None)" "wfBest st'" by blast
  with run1 cmp show ?case by simp
qed

lemma updateBestDescendant_returns:
  "isTree h t \<Longrightarrow> distinct (addrs t) \<Longrightarrow> depth t \<le> k
     \<Longrightarrow> \<exists>h'. updateBestDescendant k (top t) je fe ce (h, None) = Some (None, h', None)"
proof (induction k arbitrary: t h)
  case 0
  then show ?case by (cases t) simp
next
  case (Suc k)
  obtain n ts where t: "t = Shape n ts" by (cases t)
  from Suc.prems(1) t have ch: "children (h n) = map (\<lambda>t. Some (top t)) ts"
    and trees: "\<forall>u \<in> set ts. isTree h u" by auto
  from Suc.prems(2) t have dts: "distinct (concat (map addrs ts))" by auto
  from Suc.prems(3) t have "\<forall>u \<in> set ts. depth u \<le> k"
    using depth_child [of _ ts] by fastforce
  with trees have pre: "\<forall>u \<in> set ts. isTree h u \<and> depth u \<le> k" by simp
  have wf0: "wfBest (None, 0, False)" by (simp add: wfBest_def)
  from updateBestDescendantLoop_returns [OF Suc.IH pre dts wf0] obtain st' h1
    where lp: "updateBestDescendantLoop k (map (\<lambda>t. Some (top t)) ts) je fe ce (None, 0, False)
             (h, None) = Some (Inr st', h1, None)" and wf: "wfBest st'" by blast
  obtain bc bw hv where st': "st' = (bc, bw, hv)" by (cases st')
  show ?case
  proof (cases hv)
    case False
    with lp ch t st' show ?thesis by simp
  next
    case True
    with wf st' obtain b where "bc = Some b" by (auto simp: wfBest_def)
    with lp ch t st' True show ?thesis by (simp split: option.split)
  qed
qed

lemma keepsView_only_best:
  "keepsView h h' \<Longrightarrow> h' a = (h a)\<lparr>bestDescendant := bestDescendant (h' a)\<rparr>"
  by (rule Node.equality) (simp_all add: keepsView_def)

lemma bestDescendantOK_cong:
  assumes kv: "keepsView h g"
      and bn: "bestDescendant (g n) = bestDescendant (h n)"
      and bc: "\<forall>a \<in> set cs. bestDescendant (g a) = bestDescendant (h a)"
      and ok: "bestDescendantOK h je ce n cs"
  shows "bestDescendantOK g je ce n cs"
proof -
  from kv have w: "\<And>x. weight (g x) = weight (h x)" and r: "\<And>x. root (g x) = root (h x)"
    by (simp_all add: keepsView_def)
  have l: "\<forall>a \<in> set cs. leadsToViableHead g a je ce = leadsToViableHead h a je ce"
  proof
    fix a assume "a \<in> set cs"
    with bc have "bestDescendant (g a) = bestDescendant (h a)" by simp
    with kv show "leadsToViableHead g a je ce = leadsToViableHead h a je ce"
      by (rule leadsToViableHead_cong)
  qed
  from ok show ?thesis
    by (simp add: bestDescendantOK_def w r l bn bc)
qed

lemma bestAll_cong:
  "bestAll je ce h t \<Longrightarrow> keepsView h g
     \<Longrightarrow> (\<forall>a \<in> set (addrs t). bestDescendant (g a) = bestDescendant (h a))
     \<Longrightarrow> bestAll je ce g t"
proof (induction t)
  case (Shape n ts)
  from Shape.prems(3) have bn: "bestDescendant (g n) = bestDescendant (h n)" by simp
  have bc: "\<forall>a \<in> set (map top ts). bestDescendant (g a) = bestDescendant (h a)"
  proof
    fix a assume "a \<in> set (map top ts)"
    then obtain u where u: "u \<in> set ts" "a = top u" by auto
    then have "a \<in> set (addrs (Shape n ts))"
      using top_in_addrs [of u] by auto
    with Shape.prems(3) show "bestDescendant (g a) = bestDescendant (h a)" by blast
  qed
  have here: "if ts = [] then bestDescendant (g n) = None
              else bestDescendantOK g je ce n (map top ts)"
  proof (cases "ts = []")
    case True
    with Shape.prems(1) bn show ?thesis by simp
  next
    case False
    with Shape.prems(1) have okh: "bestDescendantOK h je ce n (map top ts)" by simp
    from Shape.prems(2) bn bc okh have "bestDescendantOK g je ce n (map top ts)"
      by (rule bestDescendantOK_cong)
    with False show ?thesis by simp
  qed
  have sub: "\<forall>u \<in> set ts. bestAll je ce g u"
  proof
    fix u assume u: "u \<in> set ts"
    with Shape.prems(1) have "bestAll je ce h u" by simp
    moreover from Shape.prems(3) u
    have "\<forall>a \<in> set (addrs u). bestDescendant (g a) = bestDescendant (h a)" by auto
    ultimately show "bestAll je ce g u"
      using Shape.prems(2) Shape.IH [OF u] by blast
  qed
  from here sub show ?case by simp
qed

lemma updateBestDescendantLoop_bestAll:
  assumes P: "\<And>t h c h' c'. isTree h t \<Longrightarrow> distinct (addrs t)
                \<Longrightarrow> updateBestDescendant k (top t) je fe ce (h, c) = Some (None, h', c')
                \<Longrightarrow> bestAll je ce h' t"
  shows "(\<forall>t \<in> set ts. isTree h t) \<Longrightarrow> distinct (concat (map addrs ts))
         \<Longrightarrow> updateBestDescendantLoop k (map (\<lambda>t. Some (top t)) ts) je fe ce st (h, c)
               = Some (Inr st', h', c')
         \<Longrightarrow> \<forall>t \<in> set ts. bestAll je ce h' t"
proof (induction ts arbitrary: st h c)
  case Nil
  then show ?case by simp
next
  case (Cons t ts)
  from Cons.prems(1) have tree_t: "isTree h t" and trees: "\<forall>u \<in> set ts. isTree h u"
    by auto
  from Cons.prems(2) have dt: "distinct (addrs t)" and dts: "distinct (concat (map addrs ts))"
    and disj: "set (addrs t) \<inter> set (concat (map addrs ts)) = {}"
    by auto
  from Cons.prems(3)
  have run: "updateBestDescendantLoop k (Some (top t) # map (\<lambda>t. Some (top t)) ts) je fe ce st (h, c)
               = Some (Inr st', h', c')" by simp
  from run show ?case
  proof (cases rule: updateBestDescendantLoop_Cons_cases)
    case (continue h1 c1 st1)
    from P [OF tree_t dt continue(1)] have b1: "bestAll je ce h1 t" .
    from updateBestDescendant_post [OF tree_t dt continue(1)] have kv1: "keepsView h h1"
      by (simp add: ubdPost_def)
    from trees kv1 have trees1: "\<forall>u \<in> set ts. isTree h1 u"
      by (blast intro: isTree_keepsView)
    from Cons.IH [OF trees1 dts continue(3)] have rest: "\<forall>u \<in> set ts. bestAll je ce h' u" .
    from updateBestDescendantLoop_post [OF updateBestDescendant_post trees1 dts continue(3)]
    have fr2: "\<forall>a. a \<notin> set (concat (map addrs ts)) \<longrightarrow> h' a = h1 a"
      and kv2: "keepsView h1 h'"
      by (auto simp: ubdLoopPost_def)
    have same: "\<forall>a \<in> set (addrs t). bestDescendant (h' a) = bestDescendant (h1 a)"
    proof
      fix a assume "a \<in> set (addrs t)"
      with disj have "a \<notin> set (concat (map addrs ts))" by blast
      with fr2 show "bestDescendant (h' a) = bestDescendant (h1 a)" by simp
    qed
    from b1 kv2 same have "bestAll je ce h' t" by (rule bestAll_cong)
    with rest show ?thesis by simp
  qed simp_all
qed

lemma updateBestDescendant_bestAll:
  "isTree h t \<Longrightarrow> distinct (addrs t)
     \<Longrightarrow> updateBestDescendant k (top t) je fe ce (h, c) = Some (None, h', c')
     \<Longrightarrow> bestAll je ce h' t"
proof (induction k arbitrary: t h c h' c')
  case 0
  then show ?case by simp
next
  case (Suc k)
  obtain n ts where t: "t = Shape n ts" by (cases t)
  from Suc.prems(1) t have tree: "isTree h (Shape n ts)"
    and ch: "children (h n) = map (\<lambda>t. Some (top t)) ts"
    and trees: "\<forall>u \<in> set ts. isTree h u" by auto
  from Suc.prems(2) t have dist: "distinct (addrs (Shape n ts))"
    and nn: "n \<notin> set (concat (map addrs ts))"
    and dts: "distinct (concat (map addrs ts))" by auto
  from Suc.prems(3) t have run: "updateBestDescendant (Suc k) n je fe ce (h, c) = Some (None, h', c')"
    by simp
  have sub: "\<And>c1 st h1 d.
      updateBestDescendantLoop k (children (h n)) je fe ce (None, 0, False) (h, c1)
        = Some (Inr st, h1, c')
      \<Longrightarrow> h' = h1(n := (h1 n)\<lparr>bestDescendant := d\<rparr>)
      \<Longrightarrow> \<forall>u \<in> set ts. bestAll je ce h' u"
  proof -
    fix c1 st h1 d
    assume lp: "updateBestDescendantLoop k (children (h n)) je fe ce (None, 0, False) (h, c1)
                  = Some (Inr st, h1, c')"
      and h': "h' = h1(n := (h1 n)\<lparr>bestDescendant := d\<rparr>)"
    from lp ch have "updateBestDescendantLoop k (map (\<lambda>t. Some (top t)) ts) je fe ce
                       (None, 0, False) (h, c1) = Some (Inr st, h1, c')" by simp
    from updateBestDescendantLoop_bestAll [OF Suc.IH trees dts this]
    have all1: "\<forall>u \<in> set ts. bestAll je ce h1 u" .
    have kv: "keepsView h1 h'"
      unfolding h' by (intro keepsView_best keepsView_refl)
    show "\<forall>u \<in> set ts. bestAll je ce h' u"
    proof
      fix u assume u: "u \<in> set ts"
      with all1 have b1: "bestAll je ce h1 u" by simp
      have same: "\<forall>a \<in> set (addrs u). bestDescendant (h' a) = bestDescendant (h1 a)"
        using nn u h' by auto
      from b1 kv same show "bestAll je ce h' u" by (rule bestAll_cong)
    qed
  qed
  show ?case
  proof (cases "ts = []")
    case True
    with ch have empty: "children (h n) = []" by simp
    from run have "bestDescendant (h' n) = None"
    proof (cases rule: updateBestDescendant_Suc_cases)
      case leaf
      then show ?thesis by simp
    qed (simp_all add: empty)
    with True t show ?thesis by simp
  next
    case ne: False
    from updateBestDescendant_top [OF tree dist ne run]
    have here: "bestDescendantOK h' je ce n (map top ts)" .
    from ne ch have nonempty: "children (h n) \<noteq> []" by simp
    from run have "\<forall>u \<in> set ts. bestAll je ce h' u"
    proof (cases rule: updateBestDescendant_Suc_cases)
      case leaf
      with nonempty show ?thesis by simp
    next
      case (chosen c1 b bw h1)
      from sub [OF chosen(3) chosen(5)] show ?thesis .
    next
      case (none_viable c1 bc bw h1)
      from sub [OF none_viable(3) none_viable(5)] show ?thesis .
    qed simp_all
    with here ne t show ?thesis by simp
  qed
qed

lemma bestAll_node:
  "bestAll je ce h' t \<Longrightarrow> isTree h t \<Longrightarrow> a \<in> set (addrs t)
     \<Longrightarrow> (if children (h a) = [] then bestDescendant (h' a) = None
          else bestDescendantOK h' je ce a (childNodes (h a)))"
proof (induction t)
  case (Shape n ts)
  show ?case
  proof (cases "a = n")
    case True
    from Shape.prems(2) have cn: "childNodes (h n) = map top ts" by (rule childNodes_tree)
    from Shape.prems(2) have "children (h n) = [] \<longleftrightarrow> ts = []" by simp
    with Shape.prems(1) True cn show ?thesis by simp
  next
    case False
    with Shape.prems(3) obtain u where u: "u \<in> set ts" "a \<in> set (addrs u)" by auto
    with Shape.prems(1,2) have "bestAll je ce h' u" "isTree h u" by auto
    with Shape.IH u show ?thesis by blast
  qed
qed

text \<open>
  Claim C2. Let the memory hold a tree of distinct nodes under the node on which
  \<open>updateBestDescendant\<close> is called. With fuel for the depth of the tree and a context
  that is not cancelled the call returns nil. Whenever it returns nil, it has changed
  nothing but the \<open>bestDescendant\<close> of nodes of the tree, and for every node \<open>n\<close> of the
  tree, with its children, their weights and their roots as they were passed in: if \<open>n\<close>
  has no children, its \<open>bestDescendant\<close> is nil; if it has children and none of them
  leads to a viable head, its \<open>bestDescendant\<close> is nil; otherwise there is a child \<open>b\<close>
  that leads to a viable head such that every child that leads to a viable head has
  less weight than \<open>b\<close>, or the same weight and a root that \<^verbatim>\<open>bytes.Compare\<close> does not put
  above the root of \<open>b\<close>, and the \<open>bestDescendant\<close> of \<open>n\<close> is the \<open>bestDescendant\<close> of \<open>b\<close>,
  or \<open>b\<close> itself when that is nil. Whether a child leads to a viable head is read
  after the call, from the \<open>bestDescendant\<close> that the call gave the child.
\<close>

theorem updateBestDescendant_best_child:
  assumes tree: "isTree h t" and dist: "distinct (addrs t)"
  shows "(depth t \<le> k \<longrightarrow>
            (\<exists>g. updateBestDescendant k (top t) je fe ce (h, None) = Some (None, g, None)))
       \<and> (updateBestDescendant k (top t) je fe ce (h, c) = Some (None, h', c') \<longrightarrow>
            (\<forall>a. h' a = (h a)\<lparr>bestDescendant := bestDescendant (h' a)\<rparr>)
            \<and> (\<forall>a. a \<notin> set (addrs t) \<longrightarrow> h' a = h a)
            \<and> (\<forall>n \<in> set (addrs t).
                  if children (h n) = [] then bestDescendant (h' n) = None
                  else if \<forall>a \<in> set (childNodes (h n)). \<not> leadsToViableHead h' a je ce
                  then bestDescendant (h' n) = None
                  else \<exists>b \<in> set (childNodes (h n)). leadsToViableHead h' b je ce
                         \<and> (\<forall>a \<in> set (childNodes (h n)). leadsToViableHead h' a je ce \<longrightarrow>
                               weight (h a) < weight (h b)
                               \<or> (weight (h a) = weight (h b)
                                  \<and> bytes_Compare (root (h a)) (root (h b)) \<le> 0))
                         \<and> bestDescendant (h' n)
                             = (case bestDescendant (h' b) of None \<Rightarrow> Some b | Some d \<Rightarrow> Some d)))"
proof (intro conjI impI)
  assume "depth t \<le> k"
  with tree dist
  show "\<exists>g. updateBestDescendant k (top t) je fe ce (h, None) = Some (None, g, None)"
    by (rule updateBestDescendant_returns)
next
  assume run: "updateBestDescendant k (top t) je fe ce (h, c) = Some (None, h', c')"
  from updateBestDescendant_post [OF tree dist run]
  have kv: "keepsView h h'" and frame: "\<forall>a. a \<notin> set (addrs t) \<longrightarrow> h' a = h a"
    by (simp_all add: ubdPost_def)
  from kv show "\<forall>a. h' a = (h a)\<lparr>bestDescendant := bestDescendant (h' a)\<rparr>"
    by (blast intro: keepsView_only_best)
  from frame show "\<forall>a. a \<notin> set (addrs t) \<longrightarrow> h' a = h a" .
  from kv have w: "\<And>x. weight (h' x) = weight (h x)" and r: "\<And>x. root (h' x) = root (h x)"
    by (simp_all add: keepsView_def)
  from updateBestDescendant_bestAll [OF tree dist run] have all: "bestAll je ce h' t" .
  show "\<forall>n \<in> set (addrs t).
          if children (h n) = [] then bestDescendant (h' n) = None
          else if \<forall>a \<in> set (childNodes (h n)). \<not> leadsToViableHead h' a je ce
          then bestDescendant (h' n) = None
          else \<exists>b \<in> set (childNodes (h n)). leadsToViableHead h' b je ce
                 \<and> (\<forall>a \<in> set (childNodes (h n)). leadsToViableHead h' a je ce \<longrightarrow>
                       weight (h a) < weight (h b)
                       \<or> (weight (h a) = weight (h b)
                          \<and> bytes_Compare (root (h a)) (root (h b)) \<le> 0))
                 \<and> bestDescendant (h' n)
                     = (case bestDescendant (h' b) of None \<Rightarrow> Some b | Some d \<Rightarrow> Some d)"
  proof
    fix n assume n: "n \<in> set (addrs t)"
    from bestAll_node [OF all tree n]
    show "if children (h n) = [] then bestDescendant (h' n) = None
          else if \<forall>a \<in> set (childNodes (h n)). \<not> leadsToViableHead h' a je ce
          then bestDescendant (h' n) = None
          else \<exists>b \<in> set (childNodes (h n)). leadsToViableHead h' b je ce
                 \<and> (\<forall>a \<in> set (childNodes (h n)). leadsToViableHead h' a je ce \<longrightarrow>
                       weight (h a) < weight (h b)
                       \<or> (weight (h a) = weight (h b)
                          \<and> bytes_Compare (root (h a)) (root (h b)) \<le> 0))
                 \<and> bestDescendant (h' n)
                     = (case bestDescendant (h' b) of None \<Rightarrow> Some b | Some d \<Rightarrow> Some d)"
      unfolding bestDescendantOK_def w r .
  qed
qed

theorem updateBestDescendant_best_child_witness:
  "isTree deepHeap deepShape \<and> distinct (addrs deepShape)
   \<and> depth deepShape \<le> Suc (Suc (Suc 0))
   \<and> bestDescendant (deepHeap 1) = Some 2 \<and> bestDescendant (deepHeap 2) = Some 1
   \<and> updateBestDescendant (Suc (Suc (Suc 0))) (top deepShape) 0 0 0 (deepHeap, Some 9)
       = Some (None, deepHeapBest, Some 5)
   \<and> childNodes (deepHeap 1) = [2, 3]
   \<and> leadsToViableHead deepHeapBest 2 0 0 \<and> leadsToViableHead deepHeapBest 3 0 0
   \<and> weight (deepHeap 2) = weight (deepHeap 3)
   \<and> 0 < bytes_Compare (root (deepHeap 3)) (root (deepHeap 2))
   \<and> bestDescendant (deepHeapBest 2) = None
   \<and> bestDescendant (deepHeapBest 3) = Some 4
   \<and> bestDescendant (deepHeapBest 1) = Some 4"
proof -
  have tree: "isTree deepHeap deepShape"
    by (simp add: deepHeap_def nodeWithRoot_def zeroNode_def deepShape_def)
  have dist: "distinct (addrs deepShape)"
    by (simp add: deepShape_def)
  have dep: "depth deepShape \<le> Suc (Suc (Suc 0))"
    by (simp add: deepShape_def)
  have stale: "bestDescendant (deepHeap 1) = Some 2" "bestDescendant (deepHeap 2) = Some 1"
    by (simp_all add: deepHeap_def nodeWithRoot_def zeroNode_def)
  have run: "updateBestDescendant (Suc (Suc (Suc 0))) (top deepShape) 0 0 0 (deepHeap, Some 9)
       = Some (None, deepHeapBest, Some 5)"
    by (simp add: deepHeap_def nodeWithRoot_def zeroNode_def deepShape_def deepHeapBest_def
                  ctxErr_def compareChild_def leadsToViableHead_def viableForHead_def
                  bytes_Compare_replicate fun_eq_iff)
  have one: "1 \<in> set (addrs deepShape)"
    by (simp add: deepShape_def)
  have kids: "children (deepHeap 1) \<noteq> []" "childNodes (deepHeap 1) = [2, 3]"
    by (simp_all add: deepHeap_def nodeWithRoot_def zeroNode_def childNodes_def
                      List.map_filter_def)
  have via: "leadsToViableHead deepHeapBest 2 0 0" "leadsToViableHead deepHeapBest 3 0 0"
    by (simp_all add: leadsToViableHead_def viableForHead_def split: option.split)
  have weights: "weight (deepHeap 2) = weight (deepHeap 3)"
    by (simp add: deepHeap_def nodeWithRoot_def zeroNode_def)
  have cmp: "0 < bytes_Compare (root (deepHeap 3)) (root (deepHeap 2))"
    by (simp add: deepHeap_def nodeWithRoot_def zeroNode_def bytes_Compare_replicate)
  have sub: "bestDescendant (deepHeapBest 2) = None" "bestDescendant (deepHeapBest 3) = Some 4"
    by (simp_all add: deepHeapBest_def deepHeap_def nodeWithRoot_def zeroNode_def)
  from updateBestDescendant_best_child [OF tree dist, of "Suc (Suc (Suc 0))" 0 0 0 "Some 9"
         deepHeapBest "Some 5"] run one
  have "if children (deepHeap 1) = [] then bestDescendant (deepHeapBest 1) = None
        else if \<forall>a \<in> set (childNodes (deepHeap 1)). \<not> leadsToViableHead deepHeapBest a 0 0
        then bestDescendant (deepHeapBest 1) = None
        else \<exists>b \<in> set (childNodes (deepHeap 1)). leadsToViableHead deepHeapBest b 0 0
               \<and> (\<forall>a \<in> set (childNodes (deepHeap 1)). leadsToViableHead deepHeapBest a 0 0 \<longrightarrow>
                     weight (deepHeap a) < weight (deepHeap b)
                     \<or> (weight (deepHeap a) = weight (deepHeap b)
                        \<and> bytes_Compare (root (deepHeap a)) (root (deepHeap b)) \<le> 0))
               \<and> bestDescendant (deepHeapBest 1)
                   = (case bestDescendant (deepHeapBest b) of None \<Rightarrow> Some b | Some d \<Rightarrow> Some d)"
    by blast
  with kids via weights cmp sub
  have best: "bestDescendant (deepHeapBest 1) = Some 4"
    by (auto split: if_splits)
  from tree dist dep stale run kids(2) via weights cmp sub best show ?thesis by simp
qed

end
